theory Spec2Isabelle
  imports Main "HOL-Library.Sublist" "HOL-Library.Char_ord" "HOL-Library.List_Lexorder"
begin

section \<open>Text primitives of the Python runtime\<close>

text \<open>
  The script \<^verbatim>\<open>scripts/calculate-rule-tokens.py\<close> works on Python \<^verbatim>\<open>str\<close> values.
  A text is modelled as a \<^typ>\<open>string\<close>; each \<^typ>\<open>char\<close> stands for one code point in the
  range U+0000 .. U+00FF.  On that range \<^verbatim>\<open>str.isspace\<close> (used by \<^verbatim>\<open>strip\<close>,
  \<^verbatim>\<open>lstrip\<close> and the regular expression class \<^verbatim>\<open>\s\<close>) holds for the code points
  9-13, 28-32, 133 and 160, and the class \<^verbatim>\<open>\d\<close> holds for the ten ASCII digits.
\<close>

definition is_space :: "char \<Rightarrow> bool" where
  "is_space c =
     (let n = (of_char c :: nat)
      in (9 \<le> n \<and> n \<le> 13) \<or> (28 \<le> n \<and> n \<le> 32) \<or> n = 133 \<or> n = 160)"

definition is_digit :: "char \<Rightarrow> bool" where
  "is_digit c = (let n = (of_char c :: nat) in 48 \<le> n \<and> n \<le> 57)"

definition NL :: char where
  "NL = CHR 0x0A"

text \<open>\<^verbatim>\<open>s.lstrip()\<close>, \<^verbatim>\<open>s.rstrip()\<close> and \<^verbatim>\<open>s.strip()\<close> without argument.\<close>

definition lstrip :: "string \<Rightarrow> string" where
  "lstrip s = dropWhile is_space s"

definition rstrip :: "string \<Rightarrow> string" where
  "rstrip s = rev (dropWhile is_space (rev s))"

definition strip :: "string \<Rightarrow> string" where
  "strip s = rstrip (lstrip s)"

text \<open>
  \<^verbatim>\<open>s.find(sub, start)\<close>: the lowest index \<open>i \<ge> start\<close> at which \<open>sub\<close> occurs in
  \<open>s\<close>; Python's \<open>-1\<close> is \<open>None\<close>.  \<open>find_at sub t i\<close> scans \<open>t\<close>, whose first
  character has index \<open>i\<close> in the whole text.
\<close>

fun find_at :: "string \<Rightarrow> string \<Rightarrow> nat \<Rightarrow> nat option" where
  "find_at sub [] i = (if sub = [] then Some i else None)"
| "find_at sub (c # cs) i =
     (if prefix sub (c # cs) then Some i else find_at sub cs (Suc i))"

definition py_find :: "string \<Rightarrow> nat \<Rightarrow> string \<Rightarrow> nat option" where
  "py_find sub start s =
     (if length s < start then None else find_at sub (drop start s) start)"

text \<open>\<^verbatim>\<open>s[i:j]\<close> for \<open>0 \<le> i\<close>, \<open>0 \<le> j\<close>.\<close>

definition slice :: "nat \<Rightarrow> nat \<Rightarrow> string \<Rightarrow> string" where
  "slice i j s = take (j - i) (drop i s)"

text \<open>
  The decimal rendering of a token count in an f-string.  A token count is the length
  of the token list returned by the tokenizer, hence a natural number.
\<close>

fun str_of_nat :: "nat \<Rightarrow> string" where
  "str_of_nat n =
     (if n < 10 then [''0123456789'' ! n]
      else str_of_nat (n div 10) @ [''0123456789'' ! (n mod 10)])"

declare str_of_nat.simps [simp del]

section \<open>The three regular expressions of the script\<close>

text \<open>
  Every pattern of the script starts with \<^verbatim>\<open>^\<close> and is used with \<^verbatim>\<open>re.MULTILINE\<close>.
  The part after \<^verbatim>\<open>^\<close> is modelled by a matcher: applied to the text that starts at
  the position under test it returns the length of the match there, or \<open>None\<close>.  The
  classes \<^verbatim>\<open>\s\<close> and \<^verbatim>\<open>\d\<close> are disjoint from each other and from the letters that
  follow them, so the greedy match is the only one and no backtracking is involved.
\<close>

type_synonym matcher = "string \<Rightarrow> nat option"

text \<open>\<^verbatim>\<open>ruleTokenCount:\s*\d+\<close>\<close>

definition match_rule_token_count :: matcher where
  "match_rule_token_count s =
     (if prefix ''ruleTokenCount:'' s then
        (let r = drop 15 s;
             ws = takeWhile is_space r;
             ds = takeWhile is_digit (dropWhile is_space r)
         in if ds = [] then None else Some (15 + length ws + length ds))
      else None)"

text \<open>\<^verbatim>\<open>alwaysApply:\<close> (the group \<^verbatim>\<open>(alwaysApply:)\<close> of the substitution is the whole match)\<close>

definition match_always_apply :: matcher where
  "match_always_apply s = (if prefix ''alwaysApply:'' s then Some 12 else None)"

text \<open>\<^verbatim>\<open>alwaysApply:\s*true\<close>\<close>

definition match_always_apply_true :: matcher where
  "match_always_apply_true s =
     (if prefix ''alwaysApply:'' s then
        (let r = drop 12 s; ws = takeWhile is_space r
         in if prefix ''true'' (dropWhile is_space r) then Some (12 + length ws + 4)
            else None)
      else None)"

text \<open>
  \<^verbatim>\<open>re.search(r"^...", s, re.MULTILINE)\<close>: the span (start, length) of the leftmost
  match, or \<open>None\<close>.  The flag \<open>bol\<close> says whether the position under test is the start
  of the text or follows a newline, which is where \<^verbatim>\<open>^\<close> matches; \<open>i\<close> is the index
  of that position.
\<close>

fun re_search_bol :: "matcher \<Rightarrow> bool \<Rightarrow> nat \<Rightarrow> string \<Rightarrow> (nat \<times> nat) option" where
  "re_search_bol m bol i [] =
     (case (if bol then m [] else None) of Some k \<Rightarrow> Some (i, k) | None \<Rightarrow> None)"
| "re_search_bol m bol i (c # cs) =
     (case (if bol then m (c # cs) else None) of
        Some k \<Rightarrow> Some (i, k)
      | None \<Rightarrow> re_search_bol m (c = NL) (Suc i) cs)"

definition re_search :: "matcher \<Rightarrow> string \<Rightarrow> (nat \<times> nat) option" where
  "re_search m s = re_search_bol m True 0 s"

text \<open>
  \<^verbatim>\<open>re.sub(r"^...", repl, s, flags=re.MULTILINE)\<close>: every match, found from left to
  right without overlap, is replaced by \<open>repl\<close> applied to the matched text; the search
  resumes right after a match.  None of the three patterns matches the empty text, so
  a match of length 0 is treated as no match.
\<close>

fun re_sub_bol :: "matcher \<Rightarrow> (string \<Rightarrow> string) \<Rightarrow> bool \<Rightarrow> string \<Rightarrow> string" where
  "re_sub_bol m repl bol [] = []"
| "re_sub_bol m repl bol (c # cs) =
     (case (if bol then m (c # cs) else None) of
        Some (Suc n) \<Rightarrow>
          repl (c # take n cs) @ re_sub_bol m repl (last (c # take n cs) = NL) (drop n cs)
      | _ \<Rightarrow> c # re_sub_bol m repl (c = NL) cs)"

definition re_sub :: "matcher \<Rightarrow> (string \<Rightarrow> string) \<Rightarrow> string \<Rightarrow> string" where
  "re_sub m repl s = re_sub_bol m repl True s"

section \<open>The text transformations of the script\<close>

text \<open>
  \<^verbatim>\<open>extract_content_from_mdc\<close>, lines 40-46, applied to the text read from the file.
\<close>

definition extract_text :: "string \<Rightarrow> string" where
  "extract_text content =
     (case py_find ''---'' 3 content of
        None \<Rightarrow> content
      | Some frontmatter_end \<Rightarrow> lstrip (drop (frontmatter_end + 3) content))"

text \<open>
  \<^verbatim>\<open>update_rule_token_count\<close>, lines 54-89, applied to the text read from the file:
  either the warning that is printed, or the text that is written back.
\<close>

datatype warning = NoFrontmatter | MalformedFrontmatter

definition rule_token_count_line :: "nat \<Rightarrow> string" where
  "rule_token_count_line token_count = ''ruleTokenCount: '' @ str_of_nat token_count"

definition update_frontmatter :: "string \<Rightarrow> nat \<Rightarrow> string" where
  "update_frontmatter frontmatter token_count =
     (if re_search match_rule_token_count frontmatter \<noteq> None then
        re_sub match_rule_token_count (\<lambda>_. rule_token_count_line token_count) frontmatter
      else if re_search match_always_apply frontmatter \<noteq> None then
        re_sub match_always_apply
          (\<lambda>g. rule_token_count_line token_count @ [NL] @ g) frontmatter
      else frontmatter @ [NL] @ rule_token_count_line token_count)"

definition update_text :: "string \<Rightarrow> nat \<Rightarrow> warning + string" where
  "update_text content token_count =
     (if \<not> prefix ''---'' content then Inl NoFrontmatter
      else case py_find ''---'' 3 content of
        None \<Rightarrow> Inl MalformedFrontmatter
      | Some frontmatter_end \<Rightarrow>
          (let frontmatter = strip (slice 3 frontmatter_end content);
               rest = drop (frontmatter_end + 3) content
           in Inr (''---'' @ [NL] @ update_frontmatter frontmatter token_count
                   @ [NL] @ ''---'' @ rest)))"

section \<open>Files, output and the command line\<close>

text \<open>
  A path is a directory together with a file name in it.  The world the script runs in
  has the directories with the names of their regular files, the text of each file, and
  the lines printed so far.  Printed lines are kept as events that carry the values
  formatted into them.
\<close>

type_synonym path = "string \<times> string"

datatype py_error = FileNotFoundError | ZeroDivisionError

datatype event =
    ErrTiktoken
  | ErrDirNotFound string
  | ErrRuleNotFound path
  | NoMdcFiles string
  | Header
  | Separator
  | FileLine string nat
  | WarnNoFrontmatter path
  | WarnMalformed path
  | UpdatedOk
  | CouldNotUpdate
  | TotalLine nat
  | AlwaysLine nat nat
  | UpdatedFiles nat

record world =
  dirs :: "string \<rightharpoonup> string list"
  files :: "path \<rightharpoonup> string"
  stdout :: "event list"

definition print :: "event \<Rightarrow> world \<Rightarrow> world" where
  "print e w = w\<lparr>stdout := stdout w @ [e]\<rparr>"

definition read_text :: "path \<Rightarrow> world \<Rightarrow> py_error + string" where
  "read_text p w = (case files w p of None \<Rightarrow> Inl FileNotFoundError | Some s \<Rightarrow> Inr s)"

definition write_text :: "path \<Rightarrow> string \<Rightarrow> world \<Rightarrow> world" where
  "write_text p s w = w\<lparr>files := (files w)(p \<mapsto> s)\<rparr>"

text \<open>\<^verbatim>\<open>count_tokens\<close> calls the external tokenizer; it is a parameter \<open>tok\<close> of the model.\<close>

type_synonym tokenizer = "string \<Rightarrow> nat"

definition extract_content_from_mdc :: "path \<Rightarrow> world \<Rightarrow> py_error + string" where
  "extract_content_from_mdc file_path w =
     (case read_text file_path w of
        Inl e \<Rightarrow> Inl e
      | Inr content \<Rightarrow> Inr (extract_text content))"

definition update_rule_token_count :: "path \<Rightarrow> nat \<Rightarrow> world \<Rightarrow> (py_error + bool) \<times> world" where
  "update_rule_token_count file_path token_count w =
     (case read_text file_path w of
        Inl e \<Rightarrow> (Inl e, w)
      | Inr content \<Rightarrow>
          (case update_text content token_count of
             Inl NoFrontmatter \<Rightarrow> (Inr False, print (WarnNoFrontmatter file_path) w)
           | Inl MalformedFrontmatter \<Rightarrow> (Inr False, print (WarnMalformed file_path) w)
           | Inr new_content \<Rightarrow> (Inr True, write_text file_path new_content w)))"

definition process_rule_file ::
  "tokenizer \<Rightarrow> path \<Rightarrow> bool \<Rightarrow> world \<Rightarrow> (py_error + nat) \<times> world" where
  "process_rule_file tok file_path update w =
     (case extract_content_from_mdc file_path w of
        Inl e \<Rightarrow> (Inl e, w)
      | Inr content \<Rightarrow>
          (let token_count = tok content;
               w1 = print (FileLine (snd file_path) token_count) w
           in if update then
                (case update_rule_token_count file_path token_count w1 of
                   (Inl e, w2) \<Rightarrow> (Inl e, w2)
                 | (Inr True, w2) \<Rightarrow> (Inr token_count, print UpdatedOk w2)
                 | (Inr False, w2) \<Rightarrow> (Inr token_count, print CouldNotUpdate w2))
              else (Inr token_count, w1)))"

text \<open>
  The loop of \<^verbatim>\<open>main\<close>, lines 157-164, with the two running totals
  \<open>(total_tokens, always_applied_tokens)\<close>.
\<close>

fun process_all ::
  "tokenizer \<Rightarrow> bool \<Rightarrow> path list \<Rightarrow> nat \<times> nat \<Rightarrow> world \<Rightarrow> (py_error + nat \<times> nat) \<times> world" where
  "process_all tok update [] acc w = (Inr acc, w)"
| "process_all tok update (rule_file # rule_files) (total_tokens, always_applied_tokens) w =
     (case process_rule_file tok rule_file update w of
        (Inl e, w1) \<Rightarrow> (Inl e, w1)
      | (Inr token_count, w1) \<Rightarrow>
          (case read_text rule_file w1 of
             Inl e \<Rightarrow> (Inl e, w1)
           | Inr content \<Rightarrow>
               process_all tok update rule_files
                 (total_tokens + token_count,
                  if re_search match_always_apply_true content \<noteq> None
                  then always_applied_tokens + token_count
                  else always_applied_tokens) w1))"

text \<open>The parsed command line: \<^verbatim>\<open>--update\<close>, \<^verbatim>\<open>--rule\<close>, \<^verbatim>\<open>--rules-dir\<close>.\<close>

record args =
  arg_update :: bool
  arg_rule :: "string option"
  arg_rules_dir :: string

text \<open>\<^verbatim>\<open>if args.rule:\<close> holds for a name that is given and not empty.\<close>

definition rule_given :: "args \<Rightarrow> bool" where
  "rule_given a = (case arg_rule a of None \<Rightarrow> False | Some r \<Rightarrow> r \<noteq> [])"

text \<open>\<^verbatim>\<open>sorted(rules_dir.glob("*.mdc"))\<close>\<close>

definition glob_mdc :: "string \<Rightarrow> world \<Rightarrow> path list" where
  "glob_mdc d w =
     (case dirs w d of
        None \<Rightarrow> []
      | Some names \<Rightarrow> map (Pair d) (sort (filter (suffix ''.mdc'') names)))"

definition rule_files_of :: "args \<Rightarrow> world \<Rightarrow> path list" where
  "rule_files_of a w =
     (if rule_given a then [(arg_rules_dir a, the (arg_rule a))]
      else glob_mdc (arg_rules_dir a) w)"

text \<open>
  How the process ends: \<^verbatim>\<open>sys.exit(n)\<close> or falling off the end of \<^verbatim>\<open>main\<close> (status 0),
  or an exception that nothing catches, on which the interpreter exits with status 1.
\<close>

datatype outcome = Exit nat | Uncaught py_error

fun exit_status :: "outcome \<Rightarrow> nat" where
  "exit_status (Exit n) = n"
| "exit_status (Uncaught e) = 1"

definition main :: "tokenizer \<Rightarrow> args \<Rightarrow> world \<Rightarrow> outcome \<times> world" where
  "main tok a w =
     (let rules_dir = arg_rules_dir a in
      if dirs w rules_dir = None then (Exit 1, print (ErrDirNotFound rules_dir) w)
      else if rule_given a \<and> files w (rules_dir, the (arg_rule a)) = None then
        (Exit 1, print (ErrRuleNotFound (rules_dir, the (arg_rule a))) w)
      else
        (let rule_files = rule_files_of a w in
         if rule_files = [] then (Exit 1, print (NoMdcFiles rules_dir) w)
         else
           (case process_all tok (arg_update a) rule_files (0, 0)
                   (print Separator (print Header w)) of
              (Inl e, w2) \<Rightarrow> (Uncaught e, w2)
            | (Inr (total_tokens, always_applied_tokens), w2) \<Rightarrow>
                (let w3 = print (TotalLine total_tokens) (print Separator w2) in
                 if total_tokens = 0 then (Uncaught ZeroDivisionError, w3)
                 else
                   (let w4 = print (AlwaysLine always_applied_tokens total_tokens) w3
                    in (Exit 0,
                        if arg_update a then print (UpdatedFiles (length rule_files)) w4
                        else w4))))))"

text \<open>
  The import guard of lines 17-21 runs before \<^verbatim>\<open>main\<close>: without the tokenizer library
  (\<open>None\<close>) the script prints a message and exits with status 1.
\<close>

definition program :: "tokenizer option \<Rightarrow> args \<Rightarrow> world \<Rightarrow> outcome \<times> world" where
  "program tiktoken a w =
     (case tiktoken of
        None \<Rightarrow> (Exit 1, print ErrTiktoken w)
      | Some tok \<Rightarrow> main tok a w)"

section \<open>Notions of the specification\<close>

text \<open>
  The frontmatter block and the text after it, as \<^verbatim>\<open>update_rule_token_count\<close> reads
  them (lines 54-65) from a text that starts with \<^verbatim>\<open>---\<close> and has a later \<^verbatim>\<open>---\<close>.
\<close>

definition well_formed :: "string \<Rightarrow> bool" where
  "well_formed content = (prefix ''---'' content \<and> py_find ''---'' 3 content \<noteq> None)"

definition frontmatter_of :: "string \<Rightarrow> string" where
  "frontmatter_of content = strip (slice 3 (the (py_find ''---'' 3 content)) content)"

definition rest_of :: "string \<Rightarrow> string" where
  "rest_of content = drop (the (py_find ''---'' 3 content) + 3) content"

text \<open>
  The specification's delimiter line: the three characters at index \<open>i\<close> are a line of
  their own, that is, they start the text or follow a newline, and they end the text or
  are followed by a newline.
\<close>

definition whole_line_at :: "string \<Rightarrow> nat \<Rightarrow> bool" where
  "whole_line_at s i =
     (slice i (i + 3) s = ''---''
      \<and> (i = 0 \<or> slice (i - 1) i s = [NL])
      \<and> (i + 3 = length s \<or> slice (i + 3) (i + 4) s = [NL]))"

text \<open>
  The specification reads the frontmatter as line-oriented \<open>key: value\<close> text.
  \<open>split_lines\<close> is \<^verbatim>\<open>s.split("\n")\<close>; the key of a line is the text before its first
  colon, for the lines that have one.
\<close>

fun split_lines_acc :: "string \<Rightarrow> string \<Rightarrow> string list" where
  "split_lines_acc cur [] = [rev cur]"
| "split_lines_acc cur (c # cs) =
     (if c = NL then rev cur # split_lines_acc [] cs else split_lines_acc (c # cur) cs)"

definition split_lines :: "string \<Rightarrow> string list" where
  "split_lines s = split_lines_acc [] s"

definition field_keys :: "string \<Rightarrow> string list" where
  "field_keys s =
     map (takeWhile (\<lambda>c. c \<noteq> CHR '':''))
       (filter (\<lambda>l. CHR '':'' \<in> set l) (split_lines s))"

text \<open>The four startup situations of the specification's exit codes.\<close>

definition startup_failure :: "tokenizer option \<Rightarrow> args \<Rightarrow> world \<Rightarrow> bool" where
  "startup_failure tiktoken a w =
     (tiktoken = None
      \<or> dirs w (arg_rules_dir a) = None
      \<or> (rule_given a \<and> files w (arg_rules_dir a, the (arg_rule a)) = None)
      \<or> (\<not> rule_given a \<and> glob_mdc (arg_rules_dir a) w = []))"

text \<open>
  The test of line 163 on the text of a file, and the text that line 162 reads back
  after \<^verbatim>\<open>process_rule_file\<close> has run on a file with text \<open>content\<close>: the rewritten text
  when update mode is on and the update is not refused, the same text otherwise.
\<close>

definition always_applied :: "string \<Rightarrow> bool" where
  "always_applied content = (re_search match_always_apply_true content \<noteq> None)"

definition read_back :: "tokenizer \<Rightarrow> bool \<Rightarrow> string \<Rightarrow> string" where
  "read_back tok update content =
     (if update then
        (case update_text content (tok (extract_text content)) of
           Inl _ \<Rightarrow> content
         | Inr new_content \<Rightarrow> new_content)
      else content)"

section \<open>Example inputs\<close>

text \<open>
  A rules directory with three rule files: one with frontmatter, one without
  frontmatter, and one whose frontmatter is never closed.
\<close>

definition example_world :: world where
  "example_world =
     \<lparr>dirs = [''rules'' \<mapsto> [''c.mdc'', ''a.mdc'', ''notes.txt'', ''b.mdc'']],
      files = [(''rules'', ''a.mdc'') \<mapsto> ''---\<newline>alwaysApply: true\<newline>---\<newline>hello world'',
               (''rules'', ''b.mdc'') \<mapsto> ''plain text'',
               (''rules'', ''c.mdc'') \<mapsto> ''---\<newline>title: unclosed''],
      stdout = []\<rparr>"

text \<open>A rules directory whose only rule file has an empty body.\<close>

definition empty_body_world :: world where
  "empty_body_world =
     \<lparr>dirs = [''rules'' \<mapsto> [''empty.mdc'']],
      files = [(''rules'', ''empty.mdc'') \<mapsto> ''---\<newline>alwaysApply: true\<newline>---\<newline>''],
      stdout = []\<rparr>"

text \<open>The command line \<^verbatim>\<open>--rules-dir rules\<close>, with or without \<^verbatim>\<open>--update\<close>.\<close>

definition example_args :: "bool \<Rightarrow> args" where
  "example_args u = \<lparr>arg_update = u, arg_rule = None, arg_rules_dir = ''rules''\<rparr>"

text \<open>
  Three rule documents: one that already records a token count, one with an
  \<^verbatim>\<open>alwaysApply\<close> field and no count, and one with neither.
\<close>

definition doc_with_count :: string where
  "doc_with_count =
     ''---\<newline>title: x\<newline>ruleTokenCount:   5\<newline>alwaysApply: true\<newline>---\<newline>body''"

definition doc_with_always_apply :: string where
  "doc_with_always_apply = ''---\<newline>title: x\<newline>alwaysApply: true\<newline>---\<newline>\<newline>body''"

definition doc_with_title :: string where
  "doc_with_title = ''---\<newline>title: x\<newline>---\<newline>body''"

text \<open>
  A rule document whose \<^verbatim>\<open>ruleTokenCount\<close> field has no value on its own line and is
  followed by a field whose key starts with digits.
\<close>

definition doc_with_split_count :: string where
  "doc_with_split_count = ''---\<newline>ruleTokenCount:\<newline>123abc: foo\<newline>---\<newline>body''"

text \<open>
  A rules directory whose only rule file has the line \<^verbatim>\<open>alwaysApply: true\<close> in its body
  and not in its frontmatter.
\<close>

definition doc_with_body_match :: string where
  "doc_with_body_match = ''---\<newline>title: x\<newline>---\<newline>alwaysApply: true\<newline>''"

definition body_match_world :: world where
  "body_match_world =
     \<lparr>dirs = [''rules'' \<mapsto> [''b.mdc'']],
      files = [(''rules'', ''b.mdc'') \<mapsto> doc_with_body_match],
      stdout = []\<rparr>"

text \<open>A rules directory whose only rule file starts with six dashes on its first line.\<close>

definition dashes_world :: world where
  "dashes_world =
     \<lparr>dirs = [''rules'' \<mapsto> [''d.mdc'']],
      files = [(''rules'', ''d.mdc'') \<mapsto> ''------\<newline>Text''],
      stdout = []\<rparr>"

section \<open>Notions used in the proofs\<close>

text \<open>
  The position \<open>p\<close> of \<open>s\<close> is where \<^verbatim>\<open>^\<close> matches under \<^verbatim>\<open>re.MULTILINE\<close>, given
  whether the start of \<open>s\<close> itself is such a position.
\<close>

definition bol_at :: "bool \<Rightarrow> string \<Rightarrow> nat \<Rightarrow> bool" where
  "bol_at b s p = (if p = 0 then b else s ! (p - 1) = NL)"

text \<open>A matcher consumes at least one character and no more than there are.\<close>

definition proper :: "matcher \<Rightarrow> bool" where
  "proper m = (\<forall>s k. m s = Some k \<longrightarrow> 0 < k \<and> k \<le> length s)"

text \<open>After optional whitespace comes a digit: what \<^verbatim>\<open>\s*\d+\<close> needs at the start of \<open>t\<close>.\<close>

definition value_follows :: "string \<Rightarrow> bool" where
  "value_follows t = (case dropWhile is_space t of [] \<Rightarrow> False | c # _ \<Rightarrow> is_digit c)"

text \<open>
  A matcher and a replacement that both start with a character that is neither
  whitespace nor a digit.
\<close>

definition letter_led :: "matcher \<Rightarrow> (string \<Rightarrow> string) \<Rightarrow> bool" where
  "letter_led m r =
     (proper m
      \<and> (\<forall>s k. m s = Some k \<longrightarrow> \<not> is_space (hd s) \<and> \<not> is_digit (hd s))
      \<and> (\<forall>g. r g \<noteq> [] \<and> \<not> is_space (hd (r g)) \<and> \<not> is_digit (hd (r g))))"

text \<open>The given line put before every line that starts with \<^verbatim>\<open>alwaysApply:\<close>.\<close>

definition insert_before_always_apply :: "string \<Rightarrow> string list \<Rightarrow> string list" where
  "insert_before_always_apply line ls =
     concat (map (\<lambda>l. if prefix ''alwaysApply:'' l then [line, l] else [l]) ls)"

section \<open>Facts about \<open>find\<close>, slices and trimming\<close>

lemma find_at_Some:
  "find_at sub s i = Some j \<Longrightarrow>
     i \<le> j \<and> j - i \<le> length s \<and> prefix sub (drop (j - i) s)
     \<and> (\<forall>k < j - i. \<not> prefix sub (drop k s))"
proof (induction s arbitrary: i)
  case Nil
  then show ?case by (simp split: if_splits)
next
  case (Cons c cs)
  show ?case
  proof (cases "prefix sub (c # cs)")
    case True
    with Cons.prems show ?thesis by simp
  next
    case False
    with Cons.prems have f: "find_at sub cs (Suc i) = Some j" by simp
    from Cons.IH [OF f] have ih: "Suc i \<le> j" "j - Suc i \<le> length cs"
      "prefix sub (drop (j - Suc i) cs)" "\<forall>k < j - Suc i. \<not> prefix sub (drop k cs)"
      by auto
    from ih(1) have eq: "j - i = Suc (j - Suc i)" by simp
    have "\<not> prefix sub (drop k (c # cs))" if "k < j - i" for k
    proof (cases k)
      case 0
      with False show ?thesis by simp
    next
      case (Suc k')
      with that eq ih(4) show ?thesis by simp
    qed
    with ih eq show ?thesis by simp
  qed
qed

lemma find_at_None:
  "find_at sub s i = None \<Longrightarrow> k \<le> length s \<Longrightarrow> \<not> prefix sub (drop k s)"
proof (induction s arbitrary: i k)
  case Nil
  then show ?case by (simp split: if_splits)
next
  case (Cons c cs)
  then show ?case by (cases k) (auto split: if_splits)
qed

lemma find_at_first:
  "prefix sub (drop d s) \<Longrightarrow> d \<le> length s \<Longrightarrow> \<forall>k < d. \<not> prefix sub (drop k s) \<Longrightarrow>
     find_at sub s i = Some (i + d)"
proof (induction s arbitrary: i d)
  case Nil
  then show ?case by simp
next
  case (Cons c cs)
  show ?case
  proof (cases d)
    case 0
    with Cons.prems show ?thesis by simp
  next
    case (Suc d')
    with Cons.prems have np: "\<not> prefix sub (c # cs)" by force
    have "\<forall>k < d'. \<not> prefix sub (drop k cs)"
    proof (intro allI impI)
      fix k assume "k < d'"
      then have "Suc k < d" using Suc by simp
      with Cons.prems(3) have "\<not> prefix sub (drop (Suc k) (c # cs))" by blast
      then show "\<not> prefix sub (drop k cs)" by simp
    qed
    with Cons.IH [of d' "Suc i"] Cons.prems Suc have "find_at sub cs (Suc i) = Some (Suc i + d')"
      by simp
    with np Suc show ?thesis by simp
  qed
qed

lemma py_find_Some:
  assumes "py_find sub start s = Some e"
  shows "start \<le> e" and "e \<le> length s" and "prefix sub (drop e s)"
    and "\<And>k. start \<le> k \<Longrightarrow> k < e \<Longrightarrow> \<not> prefix sub (drop k s)"
proof -
  from assms have le: "start \<le> length s" and f: "find_at sub (drop start s) start = Some e"
    by (auto simp: py_find_def split: if_splits)
  from find_at_Some [OF f] have 1: "start \<le> e" and 2: "e - start \<le> length (drop start s)"
    and 3: "prefix sub (drop (e - start) (drop start s))"
    and 4: "\<forall>k < e - start. \<not> prefix sub (drop k (drop start s))"
    by blast+
  show "start \<le> e" by (rule 1)
  from 1 2 le show "e \<le> length s" by simp
  from 1 have "e - start + start = e" by simp
  with 3 show "prefix sub (drop e s)" by simp
  fix k assume k: "start \<le> k" "k < e"
  then have "k - start < e - start" by simp
  with 4 have "\<not> prefix sub (drop (k - start) (drop start s))" by blast
  moreover from k have "k - start + start = k" by simp
  ultimately show "\<not> prefix sub (drop k s)" by simp
qed

lemma py_find_None:
  assumes "py_find sub start s = None" "start \<le> k"
  shows "sub \<noteq> [] \<Longrightarrow> \<not> prefix sub (drop k s)"
proof (cases "k \<le> length s")
  case False
  assume "sub \<noteq> []"
  with False show ?thesis by simp
next
  case True
  with assms have f: "find_at sub (drop start s) start = None"
    by (auto simp: py_find_def split: if_splits)
  from True assms have "k - start \<le> length (drop start s)" by simp
  from find_at_None [OF f this] assms show ?thesis by simp
qed

lemma py_find_first:
  assumes "start \<le> e" "e \<le> length s" "prefix sub (drop e s)"
    and "\<forall>k. start \<le> k \<and> k < e \<longrightarrow> \<not> prefix sub (drop k s)"
  shows "py_find sub start s = Some e"
proof -
  have "find_at sub (drop start s) start = Some (start + (e - start))"
  proof (rule find_at_first)
    from assms show "prefix sub (drop (e - start) (drop start s))" by simp
    from assms show "e - start \<le> length (drop start s)" by simp
    show "\<forall>k<e - start. \<not> prefix sub (drop k (drop start s))"
    proof (intro allI impI)
      fix k assume "k < e - start"
      then have "start \<le> start + k \<and> start + k < e" by simp
      with assms(4) have "\<not> prefix sub (drop (start + k) s)" by blast
      then show "\<not> prefix sub (drop k (drop start s))" by (simp add: add.commute)
    qed
  qed
  with assms show ?thesis by (simp add: py_find_def)
qed

lemma prefix_slice: "prefix p (drop k s) \<longleftrightarrow> slice k (k + length p) s = p"
  by (auto simp: slice_def prefix_def) (metis append_take_drop_id)

lemma lstrip_decomp:
  "\<exists>ws. s = ws @ lstrip s \<and> (\<forall>c \<in> set ws. is_space c)
        \<and> (lstrip s = [] \<or> \<not> is_space (hd (lstrip s)))"
proof (intro exI conjI)
  show "s = takeWhile is_space s @ lstrip s" by (simp add: lstrip_def)
  show "\<forall>c \<in> set (takeWhile is_space s). is_space c" by (auto dest: set_takeWhileD)
  show "lstrip s = [] \<or> \<not> is_space (hd (lstrip s))"
    unfolding lstrip_def by (metis hd_dropWhile)
qed

lemma well_formed_decomp:
  assumes "well_formed content"
  shows "content = ''---'' @ slice 3 (the (py_find ''---'' 3 content)) content @ ''---'' @ rest_of content"
proof -
  from assms obtain e where e: "py_find ''---'' 3 content = Some e" and p: "prefix ''---'' content"
    by (auto simp: well_formed_def)
  note F = py_find_Some [OF e]
  from p have t3: "take 3 content = ''---''" by (auto simp: prefix_def)
  from F(3) have t4: "take 3 (drop e content) = ''---''" by (auto simp: prefix_def)
  have d1: "drop (e - 3) (drop 3 content) = drop e content" using F(1) by simp
  have d2: "drop 3 (drop e content) = drop (e + 3) content" by (simp add: add.commute)
  have "content = take 3 content @ drop 3 content"
    by (rule append_take_drop_id [symmetric])
  also have "drop 3 content = take (e - 3) (drop 3 content) @ drop (e - 3) (drop 3 content)"
    by (rule append_take_drop_id [symmetric])
  also have "drop (e - 3) (drop 3 content) = take 3 (drop e content) @ drop 3 (drop e content)"
    unfolding d1 by (rule append_take_drop_id [symmetric])
  finally have "content = ''---'' @ take (e - 3) (drop 3 content) @ ''---'' @ drop (e + 3) content"
    unfolding t3 t4 d2 .
  then show ?thesis using e by (simp add: slice_def rest_of_def)
qed

section \<open>The frontmatter extractor\<close>

text \<open>
  Claim C7.  As stated, the extractor returns the text after the closing delimiter,
  which the specification takes to be a line of exactly \<^verbatim>\<open>---\<close>.  In the text below the
  delimiter lines are at index 0 and at index 25 and no other line is a delimiter; the
  text after the closing line, left-trimmed, is \<^verbatim>\<open>body\<close>.  The extractor stops at the
  three dashes inside the line \<^verbatim>\<open>description: a --- b\<close> and returns what follows them.
\<close>

theorem closing_line_not_found_counterexample:
  "whole_line_at ''---\<newline>description: a --- b\<newline>---\<newline>body'' 0
   \<and> whole_line_at ''---\<newline>description: a --- b\<newline>---\<newline>body'' 25
   \<and> list_all (\<lambda>i. \<not> whole_line_at ''---\<newline>description: a --- b\<newline>---\<newline>body'' i) [1 ..< 25]
   \<and> lstrip (drop (25 + 3) ''---\<newline>description: a --- b\<newline>---\<newline>body'') = ''body''
   \<and> extract_text ''---\<newline>description: a --- b\<newline>---\<newline>body'' = ''b\<newline>---\<newline>body''"
  by code_simp

text \<open>
  Claim C7, amended.  For every text that starts with \<^verbatim>\<open>---\<close> and has a later \<^verbatim>\<open>---\<close> at
  index 3 or beyond, the text is the opening three dashes, a frontmatter \<open>fm\<close>, the first
  occurrence of the three dashes from index 3 on (wherever it stands in its line), and
  a remainder \<open>rest\<close>; the extractor returns \<open>rest\<close> without its leading whitespace:
  \<open>rest\<close> is a run of whitespace followed by the result, and the result does not start
  with whitespace.
\<close>

theorem extract_well_formed:
  assumes "well_formed content"
  shows "\<exists>fm rest ws.
           content = ''---'' @ fm @ ''---'' @ rest
         \<and> py_find ''---'' 3 content = Some (3 + length fm)
         \<and> rest = ws @ extract_text content
         \<and> (\<forall>c \<in> set ws. is_space c)
         \<and> (extract_text content = [] \<or> \<not> is_space (hd (extract_text content)))"
proof -
  from assms obtain e where e: "py_find ''---'' 3 content = Some e"
    by (auto simp: well_formed_def)
  note F = py_find_Some [OF e]
  let ?fm = "slice 3 e content" and ?rest = "rest_of content"
  have ex: "extract_text content = lstrip ?rest"
    using e by (simp add: extract_text_def rest_of_def)
  from lstrip_decomp [of ?rest] obtain ws where ws: "?rest = ws @ lstrip ?rest"
    "\<forall>c \<in> set ws. is_space c" "lstrip ?rest = [] \<or> \<not> is_space (hd (lstrip ?rest))"
    by blast
  have len: "length ?fm = e - 3" using F by (simp add: slice_def)
  have "content = ''---'' @ ?fm @ ''---'' @ ?rest"
    using well_formed_decomp [OF assms] e by simp
  moreover have "py_find ''---'' 3 content = Some (3 + length ?fm)" using e len F(1) by simp
  ultimately show ?thesis using ws ex by metis
qed

theorem extract_well_formed_witness:
  "well_formed ''---\<newline>title: x\<newline>---\<newline>\<newline>  body text'' \<and>
   (\<exists>fm rest ws.
      ''---\<newline>title: x\<newline>---\<newline>\<newline>  body text'' = ''---'' @ fm @ ''---'' @ rest
      \<and> py_find ''---'' 3 ''---\<newline>title: x\<newline>---\<newline>\<newline>  body text'' = Some (3 + length fm)
      \<and> rest = ws @ extract_text ''---\<newline>title: x\<newline>---\<newline>\<newline>  body text''
      \<and> (\<forall>c \<in> set ws. is_space c)
      \<and> (extract_text ''---\<newline>title: x\<newline>---\<newline>\<newline>  body text'' = []
         \<or> \<not> is_space (hd (extract_text ''---\<newline>title: x\<newline>---\<newline>\<newline>  body text''))))"
proof -
  have h: "well_formed ''---\<newline>title: x\<newline>---\<newline>\<newline>  body text''" by code_simp
  from h extract_well_formed [OF h] show ?thesis by (rule conjI)
qed

text \<open>
  Claim C1.  A text that does not start with \<^verbatim>\<open>---\<close> has no frontmatter, and the claim
  says that the extractor returns it unchanged.  The extractor never tests the start of
  the text (the updater does, line 54): on a Markdown text with a horizontal rule it
  returns only what follows the rule.
\<close>

theorem extract_without_opening_delimiter:
  "\<not> prefix ''---'' ''# Title\<newline>\<newline>Intro\<newline>\<newline>---\<newline>\<newline>More text''
   \<and> extract_text ''# Title\<newline>\<newline>Intro\<newline>\<newline>---\<newline>\<newline>More text'' = ''More text''"
  by code_simp

section \<open>What counts as a delimiter\<close>

lemma prefix_dashes_slice: "prefix ''---'' (drop k s) \<longleftrightarrow> slice k (k + 3) s = ''---''"
  using prefix_slice [of "''---''" k s] by (simp add: eval_nat_numeral)

text \<open>
  Claim C2.  As stated, a delimiter is only a whole line \<^verbatim>\<open>---\<close>.  Neither function
  looks at line boundaries: in the text below the three dashes inside the line
  \<^verbatim>\<open>title: a---b\<close> (index 12) are taken as the closing delimiter by the extractor and
  by the updater.
\<close>

theorem delimiter_inside_line_counterexample:
  "py_find ''---'' 3 ''---\<newline>title: a---b\<newline>---\<newline>body'' = Some 12
   \<and> \<not> whole_line_at ''---\<newline>title: a---b\<newline>---\<newline>body'' 12
   \<and> extract_text ''---\<newline>title: a---b\<newline>---\<newline>body'' = ''b\<newline>---\<newline>body''
   \<and> update_text ''---\<newline>title: a---b\<newline>---\<newline>body'' 7
       = Inr ''---\<newline>title: a\<newline>ruleTokenCount: 7\<newline>---b\<newline>---\<newline>body''"
  by code_simp

text \<open>
  Claim C2, amended.  For every text that starts with the three characters \<^verbatim>\<open>---\<close>
  (whatever follows them on the first line), the closing delimiter of the extractor and
  of the updater is the first occurrence of the three characters \<^verbatim>\<open>---\<close> at index 3 or
  later, wherever it stands in its line: the extractor returns what follows it,
  left-trimmed, and the updater rewrites the text between index 3 and that occurrence
  and keeps what follows it.  For every text with no such occurrence the extractor
  returns the whole text and the updater refuses.
\<close>

theorem delimiter_is_first_occurrence:
  "(prefix ''---'' content \<and> 3 \<le> e \<and> slice e (e + 3) content = ''---''
      \<and> (\<forall>k. 3 \<le> k \<and> k < e \<longrightarrow> slice k (k + 3) content \<noteq> ''---'')
    \<longrightarrow> extract_text content = lstrip (drop (e + 3) content)
        \<and> update_text content n =
             Inr (''---'' @ [NL] @ update_frontmatter (strip (slice 3 e content)) n
                  @ [NL] @ ''---'' @ drop (e + 3) content))
   \<and> ((\<forall>k. 3 \<le> k \<longrightarrow> slice k (k + 3) content \<noteq> ''---'')
    \<longrightarrow> extract_text content = content
        \<and> update_text content n
            = (if prefix ''---'' content then Inl MalformedFrontmatter else Inl NoFrontmatter))"
proof (intro conjI impI)
  assume a: "prefix ''---'' content \<and> 3 \<le> e \<and> slice e (e + 3) content = ''---''
      \<and> (\<forall>k. 3 \<le> k \<and> k < e \<longrightarrow> slice k (k + 3) content \<noteq> ''---'')"
  then have le: "e \<le> length content" by (cases "e \<le> length content") (auto simp: slice_def)
  have f: "py_find ''---'' 3 content = Some e"
    by (rule py_find_first) (use a le in \<open>auto simp: prefix_dashes_slice\<close>)
  show "extract_text content = lstrip (drop (e + 3) content)"
    using f by (simp add: extract_text_def)
  from a f show "update_text content n =
               Inr (''---'' @ [NL] @ update_frontmatter (strip (slice 3 e content)) n
                    @ [NL] @ ''---'' @ drop (e + 3) content)"
    by (simp add: update_text_def)
next
  assume a: "\<forall>k. 3 \<le> k \<longrightarrow> slice k (k + 3) content \<noteq> ''---''"
  have f: "py_find ''---'' 3 content = None"
  proof (cases "py_find ''---'' 3 content")
    case (Some e)
    from py_find_Some(1,3) [OF Some] a show ?thesis by (auto simp: prefix_dashes_slice)
  qed simp
  then show "extract_text content = content" by (simp add: extract_text_def)
  from f show "update_text content n
            = (if prefix ''---'' content then Inl MalformedFrontmatter else Inl NoFrontmatter)"
    by (simp add: update_text_def)
qed

theorem delimiter_is_first_occurrence_witness:
  "(3::nat) \<le> 12 \<and> slice 12 (12 + 3) ''---\<newline>title: a---b\<newline>---\<newline>body'' = ''---''
   \<and> list_all (\<lambda>k. slice k (k + 3) ''---\<newline>title: a---b\<newline>---\<newline>body'' \<noteq> ''---'') [3 ..< 12]
   \<and> prefix ''---'' ''---\<newline>title: a---b\<newline>---\<newline>body''
   \<and> extract_text ''---\<newline>title: a---b\<newline>---\<newline>body''
       = lstrip (drop (12 + 3) ''---\<newline>title: a---b\<newline>---\<newline>body'')
   \<and> update_text ''---\<newline>title: a---b\<newline>---\<newline>body'' 7 =
        Inr (''---'' @ [NL]
             @ update_frontmatter (strip (slice 3 12 ''---\<newline>title: a---b\<newline>---\<newline>body'')) 7
             @ [NL] @ ''---'' @ drop (12 + 3) ''---\<newline>title: a---b\<newline>---\<newline>body'')
   \<and> list_all (\<lambda>k. slice k (k + 3) ''text'' \<noteq> ''---'') [3 ..< length ''text'' + 1]
   \<and> extract_text ''text'' = ''text''
   \<and> update_text ''text'' 7
       = (if prefix ''---'' ''text'' then Inl MalformedFrontmatter else Inl NoFrontmatter)"
proof -
  let ?X = "''---\<newline>title: a---b\<newline>---\<newline>body''"
  have l1: "list_all (\<lambda>k. slice k (k + 3) ?X \<noteq> ''---'') [3 ..< 12]" by code_simp
  have l2: "list_all (\<lambda>k. slice k (k + 3) ''text'' \<noteq> ''---'') [3 ..< length ''text'' + 1]"
    by code_simp
  from l1 have b: "\<forall>k \<in> set [3 ..< 12]. slice k (k + 3) ?X \<noteq> ''---''"
    by (simp only: list_all_iff)
  have h1: "(3::nat) \<le> 12 \<and> slice 12 (12 + 3) ?X = ''---''
      \<and> (\<forall>k. 3 \<le> k \<and> k < 12 \<longrightarrow> slice k (k + 3) ?X \<noteq> ''---'')"
  proof (intro conjI allI impI)
    show "slice 12 (12 + 3) ?X = ''---''" by code_simp
    fix k :: nat assume "3 \<le> k \<and> k < 12"
    then have "k \<in> {3 ..< 12}" by simp
    then have "k \<in> set [3 ..< 12]" by (simp only: set_upt)
    with b show "slice k (k + 3) ?X \<noteq> ''---''" by blast
  qed simp
  have p: "prefix ''---'' ?X" by code_simp
  have h2: "\<forall>k. 3 \<le> k \<longrightarrow> slice k (k + 3) ''text'' \<noteq> ''---''"
  proof (intro allI impI)
    fix k :: nat assume "3 \<le> k"
    then have "length (slice k (k + 3) ''text'') \<le> 1" by (simp add: slice_def)
    then show "slice k (k + 3) ''text'' \<noteq> ''---''" by auto
  qed
  from delimiter_is_first_occurrence [where content = ?X and e = 12 and n = 7] h1 p
  have c1: "extract_text ?X = lstrip (drop (12 + 3) ?X)"
    and c2: "update_text ?X 7 =
        Inr (''---'' @ [NL] @ update_frontmatter (strip (slice 3 12 ?X)) 7
             @ [NL] @ ''---'' @ drop (12 + 3) ?X)"
    by blast+
  from delimiter_is_first_occurrence [where content = "''text''" and e = 0 and n = 7] h2
  have c3: "extract_text ''text'' = ''text''"
    and c4: "update_text ''text'' 7
       = (if prefix ''---'' ''text'' then Inl MalformedFrontmatter else Inl NoFrontmatter)"
    by blast+
  from h1 l1 p c1 c2 l2 c3 c4 show ?thesis by blast
qed

section \<open>The frontmatter updater: refusal and write\<close>

text \<open>
  Claim C8.  As stated, the updater refuses exactly when the opening delimiter or the
  closing delimiter, each a line of exactly \<^verbatim>\<open>---\<close>, is missing.  The file below has no
  such line at all (its first line is six dashes), and the updater does not refuse: it
  takes the first three dashes as the opening and the next three as the closing
  delimiter, rewrites the file, prints no warning and returns \<open>True\<close>.  Likewise the
  text \<^verbatim>\<open>---\<close>, newline, \<^verbatim>\<open>title: a---b\<close> has an opening delimiter line and no closing one,
  and is rewritten, not refused.
\<close>

theorem update_without_delimiter_line_counterexample:
  "files dashes_world (''rules'', ''d.mdc'') = Some ''------\<newline>Text''
   \<and> list_all (\<lambda>i. \<not> whole_line_at ''------\<newline>Text'' i) [0 ..< 12]
   \<and> fst (update_rule_token_count (''rules'', ''d.mdc'') 5 dashes_world) = Inr True
   \<and> files (snd (update_rule_token_count (''rules'', ''d.mdc'') 5 dashes_world)) (''rules'', ''d.mdc'')
       = Some ''---\<newline>\<newline>ruleTokenCount: 5\<newline>---\<newline>Text''
   \<and> stdout (snd (update_rule_token_count (''rules'', ''d.mdc'') 5 dashes_world)) = []
   \<and> whole_line_at ''---\<newline>title: a---b'' 0
   \<and> list_all (\<lambda>i. \<not> whole_line_at ''---\<newline>title: a---b'' i) [1 ..< 16]
   \<and> update_text ''---\<newline>title: a---b'' 5 = Inr ''---\<newline>title: a\<newline>ruleTokenCount: 5\<newline>---b''"
  by code_simp

text \<open>
  Claim C8, amended.  For a file with text \<open>content\<close> and every token count, the updater
  returns \<open>False\<close> exactly when the text does not start with the three characters
  \<^verbatim>\<open>---\<close> or the three characters \<^verbatim>\<open>---\<close> do not occur at index 3 or later.  In the first
  case it prints the missing-frontmatter warning, in the second the
  malformed-frontmatter warning, and in both the files are as before.  In every other
  case it writes the updated text to the file, prints nothing and returns \<open>True\<close>.
\<close>

theorem update_refuses_or_writes:
  assumes "files w p = Some content"
  shows "(fst (update_rule_token_count p n w) = Inr False
            \<longleftrightarrow> \<not> prefix ''---'' content \<or> py_find ''---'' 3 content = None)
       \<and> (\<not> prefix ''---'' content \<longrightarrow>
            update_rule_token_count p n w
              = (Inr False, w\<lparr>stdout := stdout w @ [WarnNoFrontmatter p]\<rparr>))
       \<and> (prefix ''---'' content \<and> py_find ''---'' 3 content = None \<longrightarrow>
            update_rule_token_count p n w
              = (Inr False, w\<lparr>stdout := stdout w @ [WarnMalformed p]\<rparr>))
       \<and> (prefix ''---'' content \<and> py_find ''---'' 3 content \<noteq> None \<longrightarrow>
            (\<exists>new_content. update_text content n = Inr new_content
               \<and> update_rule_token_count p n w
                   = (Inr True, w\<lparr>files := (files w)(p \<mapsto> new_content)\<rparr>)))"
proof (cases "prefix ''---'' content")
  case False
  with assms show ?thesis
    by (simp add: update_rule_token_count_def read_text_def update_text_def print_def)
next
  case True
  show ?thesis
  proof (cases "py_find ''---'' 3 content")
    case None
    with True assms show ?thesis
      by (simp add: update_rule_token_count_def read_text_def update_text_def print_def)
  next
    case (Some e)
    with True assms show ?thesis
      by (simp add: update_rule_token_count_def read_text_def update_text_def write_text_def Let_def)
  qed
qed

theorem update_refuses_or_writes_witness:
  "files example_world (''rules'', ''b.mdc'') = Some ''plain text''
   \<and> \<not> prefix ''---'' ''plain text''
   \<and> update_rule_token_count (''rules'', ''b.mdc'') 2 example_world
       = (Inr False,
          example_world\<lparr>stdout := stdout example_world @ [WarnNoFrontmatter (''rules'', ''b.mdc'')]\<rparr>)
   \<and> files example_world (''rules'', ''c.mdc'') = Some ''---\<newline>title: unclosed''
   \<and> (prefix ''---'' ''---\<newline>title: unclosed'' \<and> py_find ''---'' 3 ''---\<newline>title: unclosed'' = None)
   \<and> update_rule_token_count (''rules'', ''c.mdc'') 5 example_world
       = (Inr False,
          example_world\<lparr>stdout := stdout example_world @ [WarnMalformed (''rules'', ''c.mdc'')]\<rparr>)
   \<and> files example_world (''rules'', ''a.mdc'') = Some ''---\<newline>alwaysApply: true\<newline>---\<newline>hello world''
   \<and> (prefix ''---'' ''---\<newline>alwaysApply: true\<newline>---\<newline>hello world''
      \<and> py_find ''---'' 3 ''---\<newline>alwaysApply: true\<newline>---\<newline>hello world'' \<noteq> None)
   \<and> (\<exists>new_content.
        update_text ''---\<newline>alwaysApply: true\<newline>---\<newline>hello world'' 2 = Inr new_content
        \<and> update_rule_token_count (''rules'', ''a.mdc'') 2 example_world
           = (Inr True,
              example_world\<lparr>files := (files example_world)((''rules'', ''a.mdc'') \<mapsto> new_content)\<rparr>))"
proof -
  have fb: "files example_world (''rules'', ''b.mdc'') = Some ''plain text''" by code_simp
  have hb: "\<not> prefix ''---'' ''plain text''" by code_simp
  have fc: "files example_world (''rules'', ''c.mdc'') = Some ''---\<newline>title: unclosed''"
    by code_simp
  have hc: "prefix ''---'' ''---\<newline>title: unclosed'' \<and> py_find ''---'' 3 ''---\<newline>title: unclosed'' = None"
    by code_simp
  have fa: "files example_world (''rules'', ''a.mdc'')
              = Some ''---\<newline>alwaysApply: true\<newline>---\<newline>hello world''"
    by code_simp
  have ha: "prefix ''---'' ''---\<newline>alwaysApply: true\<newline>---\<newline>hello world''
      \<and> py_find ''---'' 3 ''---\<newline>alwaysApply: true\<newline>---\<newline>hello world'' \<noteq> None"
    by code_simp
  from update_refuses_or_writes [OF fb, of 2] hb
  have cb: "update_rule_token_count (''rules'', ''b.mdc'') 2 example_world
       = (Inr False,
          example_world\<lparr>stdout := stdout example_world @ [WarnNoFrontmatter (''rules'', ''b.mdc'')]\<rparr>)"
    by blast
  from update_refuses_or_writes [OF fc, of 5] hc
  have cc: "update_rule_token_count (''rules'', ''c.mdc'') 5 example_world
       = (Inr False,
          example_world\<lparr>stdout := stdout example_world @ [WarnMalformed (''rules'', ''c.mdc'')]\<rparr>)"
    by blast
  from update_refuses_or_writes [OF fa, of 2] ha
  have ca: "\<exists>new_content.
        update_text ''---\<newline>alwaysApply: true\<newline>---\<newline>hello world'' 2 = Inr new_content
        \<and> update_rule_token_count (''rules'', ''a.mdc'') 2 example_world
           = (Inr True,
              example_world\<lparr>files := (files example_world)((''rules'', ''a.mdc'') \<mapsto> new_content)\<rparr>)"
    by blast
  from fb hb cb fc hc cc fa ha ca show ?thesis by blast
qed

section \<open>The run of the program\<close>

lemma main_no_startup:
  assumes "\<not> startup_failure (Some tok) a w"
  shows "main tok a w =
     (case process_all tok (arg_update a) (rule_files_of a w) (0, 0)
             (print Separator (print Header w)) of
        (Inl e, w2) \<Rightarrow> (Uncaught e, w2)
      | (Inr (total_tokens, always_applied_tokens), w2) \<Rightarrow>
          (let w3 = print (TotalLine total_tokens) (print Separator w2) in
           if total_tokens = 0 then (Uncaught ZeroDivisionError, w3)
           else
             (let w4 = print (AlwaysLine always_applied_tokens total_tokens) w3
              in (Exit 0,
                  if arg_update a then print (UpdatedFiles (length (rule_files_of a w))) w4
                  else w4))))"
proof -
  from assms have 1: "dirs w (arg_rules_dir a) \<noteq> None"
    and 2: "\<not> (rule_given a \<and> files w (arg_rules_dir a, the (arg_rule a)) = None)"
    and 3: "rule_files_of a w \<noteq> []"
    by (auto simp: startup_failure_def rule_files_of_def)
  then show ?thesis by (auto simp: main_def Let_def)
qed

lemma program_no_startup:
  assumes "\<not> startup_failure (Some tok) a w"
    and "process_all tok (arg_update a) (rule_files_of a w) (0, 0)
           (print Separator (print Header w)) = (r, w2)"
  shows "r = Inl e \<Longrightarrow> program (Some tok) a w = (Uncaught e, w2)"
    and "r = Inr (0, al) \<Longrightarrow>
           program (Some tok) a w
             = (Uncaught ZeroDivisionError, print (TotalLine 0) (print Separator w2))"
    and "r = Inr (t, al) \<Longrightarrow> 0 < t \<Longrightarrow>
           program (Some tok) a w
             = (Exit 0,
                if arg_update a
                then print (UpdatedFiles (length (rule_files_of a w)))
                       (print (AlwaysLine al t) (print (TotalLine t) (print Separator w2)))
                else print (AlwaysLine al t) (print (TotalLine t) (print Separator w2)))"
  using assms(2) by (simp_all add: program_def main_no_startup [OF assms(1)] Let_def)

lemma glob_example: "glob_mdc ''rules'' example_world
   = [(''rules'', ''a.mdc''), (''rules'', ''b.mdc''), (''rules'', ''c.mdc'')]"
  by code_simp

lemma dirs_example: "dirs example_world ''rules'' \<noteq> None"
  by code_simp

lemma no_startup_failure_example:
  "\<not> startup_failure (Some tok) (example_args u) example_world"
  using dirs_example
  by (simp add: startup_failure_def glob_example rule_given_def example_args_def)

text \<open>
  Claim C9.  The program ends with \<^verbatim>\<open>sys.exit(1)\<close> after printing one message, with the
  files untouched and nothing else printed, exactly in the four startup situations: no
  tokenizer library, no rules directory, the named rule file missing, no \<^verbatim>\<open>.mdc\<close> file
  found.  In every other run a tokenizer is there and the files are processed: the
  program exits with status 0 unless an exception ends it, whether or not updates were
  refused on the way (an unreadable file, or a grand total of zero, raises).
\<close>

theorem exit_status_of_program:
  "(startup_failure tiktoken a w \<longleftrightarrow>
      (\<exists>msg \<in> {ErrTiktoken, ErrDirNotFound (arg_rules_dir a),
                ErrRuleNotFound (arg_rules_dir a, the (arg_rule a)),
                NoMdcFiles (arg_rules_dir a)}.
         program tiktoken a w = (Exit 1, print msg w)))
   \<and> (\<not> startup_failure tiktoken a w \<longrightarrow>
        (\<exists>tok. tiktoken = Some tok
           \<and> (\<forall>e. fst (process_all tok (arg_update a) (rule_files_of a w) (0, 0)
                        (print Separator (print Header w))) = Inl e
                  \<longrightarrow> fst (program tiktoken a w) = Uncaught e)
           \<and> (\<forall>t al. fst (process_all tok (arg_update a) (rule_files_of a w) (0, 0)
                        (print Separator (print Header w))) = Inr (t, al)
                  \<longrightarrow> fst (program tiktoken a w)
                       = (if t = 0 then Uncaught ZeroDivisionError else Exit 0))))"
proof (cases tiktoken)
  case None
  then show ?thesis by (simp add: startup_failure_def program_def)
next
  case (Some tok)
  show ?thesis
  proof (cases "startup_failure (Some tok) a w")
    case True
    then have "\<exists>msg \<in> {ErrTiktoken, ErrDirNotFound (arg_rules_dir a),
                ErrRuleNotFound (arg_rules_dir a, the (arg_rule a)),
                NoMdcFiles (arg_rules_dir a)}.
         main tok a w = (Exit 1, print msg w)"
      by (auto simp: startup_failure_def main_def rule_files_of_def Let_def)
    with True Some show ?thesis by (simp add: program_def)
  next
    case False
    obtain r w2 where pa: "process_all tok (arg_update a) (rule_files_of a w) (0, 0)
           (print Separator (print Header w)) = (r, w2)"
      by (cases "process_all tok (arg_update a) (rule_files_of a w) (0, 0)
           (print Separator (print Header w))") blast
    note P = program_no_startup [OF False pa]
    have o: "fst (program (Some tok) a w) = Exit 0 \<or> (\<exists>e. fst (program (Some tok) a w) = Uncaught e)"
    proof (cases r)
      case (Inl e)
      with P(1) show ?thesis by simp
    next
      case (Inr ta)
      obtain t al where "ta = (t, al)" by (cases ta)
      with Inr P(2) [of al] P(3) [of t al] show ?thesis by (cases "t = 0") auto
    qed
    then have n: "\<not> (\<exists>msg \<in> {ErrTiktoken, ErrDirNotFound (arg_rules_dir a),
                ErrRuleNotFound (arg_rules_dir a, the (arg_rule a)),
                NoMdcFiles (arg_rules_dir a)}.
         program (Some tok) a w = (Exit 1, print msg w))"
      by auto
    have e: "\<forall>e. r = Inl e \<longrightarrow> fst (program (Some tok) a w) = Uncaught e"
      using P(1) by simp
    have t: "\<forall>t al. r = Inr (t, al) \<longrightarrow> fst (program (Some tok) a w)
                       = (if t = 0 then Uncaught ZeroDivisionError else Exit 0)"
      using P(2) P(3) by auto
    from False n e t Some pa show ?thesis by simp
  qed
qed

theorem exit_status_of_program_witness:
  "startup_failure None (example_args True) example_world
   \<and> (\<exists>msg \<in> {ErrTiktoken, ErrDirNotFound (arg_rules_dir (example_args True)),
                ErrRuleNotFound (arg_rules_dir (example_args True), the (arg_rule (example_args True))),
                NoMdcFiles (arg_rules_dir (example_args True))}.
         program None (example_args True) example_world = (Exit 1, print msg example_world))
   \<and> \<not> startup_failure (Some length) (example_args True) example_world
   \<and> fst (process_all length (arg_update (example_args True))
             (rule_files_of (example_args True) example_world) (0, 0)
             (print Separator (print Header example_world))) = Inr (40, 11)
   \<and> CouldNotUpdate \<in> set (stdout (snd (program (Some length) (example_args True) example_world)))
   \<and> fst (program (Some length) (example_args True) example_world) = Exit 0"
proof -
  have h1: "startup_failure None (example_args True) example_world"
    by (simp add: startup_failure_def)
  have h2: "\<not> startup_failure (Some length) (example_args True) example_world"
    by (rule no_startup_failure_example)
  have h3: "fst (process_all length (arg_update (example_args True))
             (rule_files_of (example_args True) example_world) (0, 0)
             (print Separator (print Header example_world))) = Inr (40, 11)"
    by code_simp
  have h4: "CouldNotUpdate \<in> set (stdout (snd (program (Some length) (example_args True) example_world)))"
    by code_simp
  from exit_status_of_program [of None "example_args True" example_world] h1
  have c1: "\<exists>msg \<in> {ErrTiktoken, ErrDirNotFound (arg_rules_dir (example_args True)),
                ErrRuleNotFound (arg_rules_dir (example_args True), the (arg_rule (example_args True))),
                NoMdcFiles (arg_rules_dir (example_args True))}.
         program None (example_args True) example_world = (Exit 1, print msg example_world)"
    by blast
  from exit_status_of_program [of "Some length" "example_args True" example_world] h2 h3
  have c2: "fst (program (Some length) (example_args True) example_world) = Exit 0"
    by auto
  from h1 c1 h2 h3 h4 c2 show ?thesis by blast
qed

text \<open>
  Claim C10.  As stated, the final summary is printed only when the grand total is
  positive.  On a run whose only file has an empty body the total is zero: the
  separator and the line of the total are printed before the division raises.
\<close>

theorem zero_total_prints_total_line:
  "\<not> startup_failure (Some length) (example_args False) empty_body_world
   \<and> fst (program (Some length) (example_args False) empty_body_world)
       = Uncaught ZeroDivisionError
   \<and> stdout (snd (program (Some length) (example_args False) empty_body_world))
       = [Header, Separator, FileLine ''empty.mdc'' 0, Separator, TotalLine 0]"
proof (intro conjI)
  have "dirs empty_body_world ''rules'' \<noteq> None" by code_simp
  moreover have "glob_mdc ''rules'' empty_body_world \<noteq> []" by code_simp
  ultimately show "\<not> startup_failure (Some length) (example_args False) empty_body_world"
    by (simp add: startup_failure_def rule_given_def example_args_def)
  show "fst (program (Some length) (example_args False) empty_body_world)
       = Uncaught ZeroDivisionError"
    by code_simp
  show "stdout (snd (program (Some length) (example_args False) empty_body_world))
       = [Header, Separator, FileLine ''empty.mdc'' 0, Separator, TotalLine 0]"
    by code_simp
qed

text \<open>
  Claim C10, amended.  When the files have been processed and the grand total is zero,
  the run prints the separator and the line of the total and then ends with
  \<^verbatim>\<open>ZeroDivisionError\<close> instead of completing; the line of the always-applied subtotal
  and the closing line of update mode are printed only when the grand total is
  positive, and then the run exits with status 0.
\<close>

theorem zero_total_raises:
  "\<not> startup_failure (Some tok) a w \<and>
   process_all tok (arg_update a) (rule_files_of a w) (0, 0)
     (print Separator (print Header w)) = (Inr (n_total, n_always), w2)
   \<longrightarrow> (n_total = 0 \<longrightarrow>
          program (Some tok) a w
            = (Uncaught ZeroDivisionError, print (TotalLine 0) (print Separator w2)))
     \<and> (0 < n_total \<longrightarrow>
          program (Some tok) a w
            = (Exit 0,
               if arg_update a
               then print (UpdatedFiles (length (rule_files_of a w)))
                      (print (AlwaysLine n_always n_total) (print (TotalLine n_total) (print Separator w2)))
               else print (AlwaysLine n_always n_total) (print (TotalLine n_total) (print Separator w2))))"
proof (intro impI conjI)
  assume a: "\<not> startup_failure (Some tok) a w \<and>
   process_all tok (arg_update a) (rule_files_of a w) (0, 0)
     (print Separator (print Header w)) = (Inr (n_total, n_always), w2)"
  then have 1: "\<not> startup_failure (Some tok) a w"
    and 2: "process_all tok (arg_update a) (rule_files_of a w) (0, 0)
     (print Separator (print Header w)) = (Inr (n_total, n_always), w2)" by blast+
  note P = program_no_startup [OF 1 2]
  { assume "n_total = 0"
    with P(2) [of n_always] show "program (Some tok) a w
            = (Uncaught ZeroDivisionError, print (TotalLine 0) (print Separator w2))" by simp }
  { assume "0 < n_total"
    with P(3) [of n_total n_always] show "program (Some tok) a w
            = (Exit 0,
               if arg_update a
               then print (UpdatedFiles (length (rule_files_of a w)))
                      (print (AlwaysLine n_always n_total) (print (TotalLine n_total) (print Separator w2)))
               else print (AlwaysLine n_always n_total) (print (TotalLine n_total) (print Separator w2)))"
      by simp }
qed

theorem zero_total_raises_witness:
  "(\<not> startup_failure (Some length) (example_args False) empty_body_world \<and>
    process_all length (arg_update (example_args False))
      (rule_files_of (example_args False) empty_body_world) (0, 0)
      (print Separator (print Header empty_body_world))
     = (Inr (0, 0),
        snd (process_all length (arg_update (example_args False))
               (rule_files_of (example_args False) empty_body_world) (0, 0)
               (print Separator (print Header empty_body_world)))))
   \<and> program (Some length) (example_args False) empty_body_world
       = (Uncaught ZeroDivisionError,
          print (TotalLine 0) (print Separator
            (snd (process_all length (arg_update (example_args False))
               (rule_files_of (example_args False) empty_body_world) (0, 0)
               (print Separator (print Header empty_body_world))))))
   \<and> (\<not> startup_failure (Some length) (example_args False) example_world \<and>
    process_all length (arg_update (example_args False))
      (rule_files_of (example_args False) example_world) (0, 0)
      (print Separator (print Header example_world))
     = (Inr (40, 11),
        snd (process_all length (arg_update (example_args False))
               (rule_files_of (example_args False) example_world) (0, 0)
               (print Separator (print Header example_world)))))
   \<and> fst (program (Some length) (example_args False) example_world) = Exit 0"
proof -
  let ?a = "example_args False"
  let ?P0 = "process_all length (arg_update ?a) (rule_files_of ?a empty_body_world) (0, 0)
      (print Separator (print Header empty_body_world))"
  let ?P1 = "process_all length (arg_update ?a) (rule_files_of ?a example_world) (0, 0)
      (print Separator (print Header example_world))"
  have "dirs empty_body_world ''rules'' \<noteq> None" by code_simp
  moreover have "glob_mdc ''rules'' empty_body_world \<noteq> []" by code_simp
  ultimately have s0: "\<not> startup_failure (Some length) ?a empty_body_world"
    by (simp add: startup_failure_def rule_given_def example_args_def)
  have "fst ?P0 = Inr (0, 0)" by code_simp
  then have p0: "?P0 = (Inr (0, 0), snd ?P0)" by (simp add: prod_eq_iff)
  have s1: "\<not> startup_failure (Some length) ?a example_world"
    by (rule no_startup_failure_example)
  have "fst ?P1 = Inr (40, 11)" by code_simp
  then have p1: "?P1 = (Inr (40, 11), snd ?P1)" by (simp add: prod_eq_iff)
  from zero_total_raises [of length ?a empty_body_world 0 0 "snd ?P0"] s0 p0
  have c0: "program (Some length) ?a empty_body_world
       = (Uncaught ZeroDivisionError, print (TotalLine 0) (print Separator (snd ?P0)))"
    by blast
  from zero_total_raises [of length ?a example_world 40 11 "snd ?P1"] s1 p1
  have c1: "fst (program (Some length) ?a example_world) = Exit 0"
    by simp
  from s0 p0 c0 s1 p1 c1 show ?thesis by blast
qed

section \<open>Facts about searching and substituting\<close>

lemma re_search_bol_None:
  "re_search_bol m b i s = None \<Longrightarrow> p \<le> length s \<Longrightarrow> bol_at b s p \<Longrightarrow> m (drop p s) = None"
proof (induction s arbitrary: b i p)
  case Nil
  then show ?case by (auto simp: bol_at_def split: option.splits if_splits)
next
  case (Cons c cs)
  show ?case
  proof (cases p)
    case 0
    with Cons.prems show ?thesis by (auto simp: bol_at_def split: option.splits if_splits)
  next
    case (Suc q)
    from Cons.prems(1) have n: "re_search_bol m (c = NL) (Suc i) cs = None"
      by (auto split: option.splits if_splits)
    from Cons.prems(3) Suc have "bol_at (c = NL) cs q"
      by (cases q) (auto simp: bol_at_def)
    with Cons.IH [OF n, of q] Cons.prems(2) Suc show ?thesis by simp
  qed
qed

lemma re_search_bol_Some:
  "re_search_bol m b i s = Some (j, k) \<Longrightarrow>
     i \<le> j \<and> j - i \<le> length s \<and> m (drop (j - i) s) = Some k \<and> bol_at b s (j - i)
     \<and> (\<forall>p < j - i. bol_at b s p \<longrightarrow> m (drop p s) = None)"
proof (induction s arbitrary: b i)
  case Nil
  then show ?case by (auto simp: bol_at_def split: option.splits if_splits)
next
  case (Cons c cs)
  show ?case
  proof (cases "if b then m (c # cs) else None")
    case (Some k')
    with Cons.prems have "j = i" "k' = k" by auto
    with Some show ?thesis by (auto simp: bol_at_def split: if_splits)
  next
    case None
    with Cons.prems have s: "re_search_bol m (c = NL) (Suc i) cs = Some (j, k)" by simp
    from Cons.IH [OF s] have ih: "Suc i \<le> j" "j - Suc i \<le> length cs"
      "m (drop (j - Suc i) cs) = Some k" "bol_at (c = NL) cs (j - Suc i)"
      "\<forall>p < j - Suc i. bol_at (c = NL) cs p \<longrightarrow> m (drop p cs) = None"
      by blast+
    from ih(1) have eq: "j - i = Suc (j - Suc i)" by simp
    have b: "bol_at b (c # cs) (j - i)"
      using ih(4) unfolding eq by (cases "j - Suc i") (auto simp: bol_at_def)
    have "m (drop p (c # cs)) = None" if "p < j - i" "bol_at b (c # cs) p" for p
    proof (cases p)
      case 0
      with that None show ?thesis by (auto simp: bol_at_def split: if_splits)
    next
      case (Suc q)
      with that(2) have "bol_at (c = NL) cs q" by (cases q) (auto simp: bol_at_def)
      moreover from that(1) Suc eq have "q < j - Suc i" by simp
      ultimately show ?thesis using ih(5) Suc by simp
    qed
    with ih b show ?thesis unfolding eq by simp
  qed
qed

lemma re_search_bol_found:
  "p \<le> length s \<and> bol_at b s p \<and> m (drop p s) \<noteq> None \<Longrightarrow> re_search_bol m b i s \<noteq> None"
proof
  assume "p \<le> length s \<and> bol_at b s p \<and> m (drop p s) \<noteq> None"
  then have a: "p \<le> length s" "bol_at b s p" "m (drop p s) \<noteq> None" by blast+
  assume n: "re_search_bol m b i s = None"
  from re_search_bol_None [OF n a(1,2)] a(3) show False by simp
qed

lemma re_search_bol_offset:
  "(re_search_bol m b i s = None) = (re_search_bol m b i' s = None)"
proof (induction s arbitrary: b i i')
  case Nil
  then show ?case by (simp split: option.splits)
next
  case (Cons c cs)
  from Cons [of "c = NL" "Suc i" "Suc i'"] show ?case by (simp split: option.splits)
qed

lemma re_sub_bol_None:
  "re_search_bol m b i s = None \<Longrightarrow> re_sub_bol m r b s = s"
proof (induction s arbitrary: b i)
  case Nil
  then show ?case by simp
next
  case (Cons c cs)
  from Cons.prems have 1: "(if b then m (c # cs) else None) = None"
    and 2: "re_search_bol m (c = NL) (Suc i) cs = None"
    by (auto split: option.splits)
  from Cons.IH [OF 2] 1 show ?case by simp
qed

lemma re_sub_bol_Some:
  assumes "proper m"
  shows "re_search_bol m b i s = Some (j, k) \<Longrightarrow>
     re_sub_bol m r b s =
       take (j - i) s @ r (take k (drop (j - i) s))
       @ re_sub_bol m r (last (take k (drop (j - i) s)) = NL) (drop (j - i + k) s)"
proof (induction s arbitrary: b i)
  case Nil
  then have "m [] = Some k" by (auto split: option.splits if_splits)
  with assms have "0 < k \<and> k \<le> length ([] :: string)" unfolding proper_def by blast
  then have False by auto
  then show ?case ..
next
  case (Cons c cs)
  show ?case
  proof (cases "if b then m (c # cs) else None")
    case (Some k')
    with Cons.prems have e: "j = i" "k' = k" by auto
    from Some assms have "0 < k'" by (auto simp: proper_def split: if_splits)
    then obtain n where n: "k' = Suc n" by (cases k') auto
    from Some n have "(if b then m (c # cs) else None) = Some (Suc n)" by simp
    then have "re_sub_bol m r b (c # cs) =
        r (c # take n cs) @ re_sub_bol m r (last (c # take n cs) = NL) (drop n cs)"
      by simp
    moreover from e n have "j - i = 0" "k = Suc n" by simp_all
    ultimately show ?thesis by simp
  next
    case None
    with Cons.prems have s: "re_search_bol m (c = NL) (Suc i) cs = Some (j, k)" by simp
    from re_search_bol_Some [OF s] have "Suc i \<le> j" by simp
    then have eq: "j - i = Suc (j - Suc i)" by simp
    from Cons.IH [OF s] None show ?thesis unfolding eq by simp
  qed
qed

lemma re_sub_bol_False_Cons:
  "re_sub_bol m r False (c # cs) = c # re_sub_bol m r (c = NL) cs"
  by simp

lemma re_sub_bol_False_append:
  "NL \<notin> set a \<Longrightarrow> re_sub_bol m r False (a @ t) = a @ re_sub_bol m r False t"
proof (induction a)
  case Nil
  show ?case by simp
next
  case (Cons x a)
  then have "x \<noteq> NL" and ih: "re_sub_bol m r False (a @ t) = a @ re_sub_bol m r False t"
    by auto
  have "re_sub_bol m r False ((x # a) @ t) = x # re_sub_bol m r (x = NL) (a @ t)"
    by (simp only: append_Cons re_sub_bol_False_Cons)
  with \<open>x \<noteq> NL\<close> ih show ?case by simp
qed

lemma prefix_re_sub_bol_False:
  "NL \<notin> set a \<Longrightarrow> prefix a (re_sub_bol m r False t) \<longleftrightarrow> prefix a t"
proof (induction a arbitrary: t)
  case Nil
  then show ?case by simp
next
  case (Cons x a)
  then have x: "x \<noteq> NL" and ih: "\<And>t. prefix a (re_sub_bol m r False t) \<longleftrightarrow> prefix a t"
    by auto
  show ?case
  proof (cases t)
    case Nil
    then show ?thesis by simp
  next
    case (Cons c cs)
    show ?thesis
    proof (cases "x = c")
      case True
      with x have "re_sub_bol m r False (c # cs) = c # re_sub_bol m r False cs"
        by (simp only: re_sub_bol_False_Cons)
      with True Cons ih [of cs] show ?thesis by simp
    next
      case False
      then show ?thesis unfolding Cons
        by (simp only: re_sub_bol_False_Cons Cons_prefix_Cons simp_thms)
    qed
  qed
qed

section \<open>Facts about the matchers\<close>

lemma digit_chars: "d < 10 \<Longrightarrow> is_digit (''0123456789'' ! d)"
proof -
  have "list_all (\<lambda>d. is_digit (''0123456789'' ! d)) [0 ..< 10]" by code_simp
  then have "\<forall>d \<in> set [0 ..< 10]. is_digit (''0123456789'' ! d)" by (simp only: list_all_iff)
  moreover assume "d < 10"
  then have "d \<in> set [0 ..< 10]" by (simp only: set_upt atLeastLessThan_iff) simp
  ultimately show ?thesis by blast
qed

lemma str_of_nat_digits: "str_of_nat n \<noteq> [] \<and> (\<forall>c \<in> set (str_of_nat n). is_digit c)"
proof (induction n rule: str_of_nat.induct)
  case (1 n)
  show ?case
  proof (cases "n < 10")
    case True
    then show ?thesis by (subst (1 2) str_of_nat.simps) (simp add: digit_chars)
  next
    case False
    have "n mod 10 < 10" by simp
    with False 1 show ?thesis by (subst (1 2) str_of_nat.simps) (simp add: digit_chars)
  qed
qed

lemma space_not_digit: "is_space c \<Longrightarrow> \<not> is_digit c"
  by (auto simp: is_space_def is_digit_def Let_def)

lemma NL_space: "is_space NL"
  by (simp add: is_space_def NL_def)

lemma value_follows_Cons:
  "value_follows (c # t) = (if is_space c then value_follows t else is_digit c)"
  by (simp add: value_follows_def)

lemma value_follows_Nil: "\<not> value_follows []"
  by (simp add: value_follows_def)

lemma case_takeWhile:
  "(case xs of [] \<Rightarrow> False | c # _ \<Rightarrow> P c) \<longleftrightarrow> takeWhile P xs \<noteq> []"
  by (cases xs) simp_all

lemma value_follows_takeWhile:
  "value_follows t \<longleftrightarrow> takeWhile is_digit (dropWhile is_space t) \<noteq> []"
  unfolding value_follows_def by (rule case_takeWhile)

lemma rtc_iff:
  "match_rule_token_count s \<noteq> None
     \<longleftrightarrow> prefix ''ruleTokenCount:'' s \<and> value_follows (drop 15 s)"
  by (simp add: match_rule_token_count_def Let_def value_follows_takeWhile)

lemma rtc_proper: "proper match_rule_token_count"
proof (unfold proper_def, intro allI impI)
  fix s k assume m: "match_rule_token_count s = Some k"
  then have p: "prefix ''ruleTokenCount:'' s" by (simp add: match_rule_token_count_def split: if_splits)
  then have len: "15 \<le> length s" by (auto simp: prefix_def)
  let ?r = "drop 15 s"
  from m p have k: "k = 15 + length (takeWhile is_space ?r)
                     + length (takeWhile is_digit (dropWhile is_space ?r))"
    and ne: "takeWhile is_digit (dropWhile is_space ?r) \<noteq> []"
    by (auto simp: match_rule_token_count_def Let_def split: if_splits)
  have "length (takeWhile is_digit (dropWhile is_space ?r)) \<le> length (dropWhile is_space ?r)"
    by (rule length_takeWhile_le)
  moreover have "length (takeWhile is_space ?r) + length (dropWhile is_space ?r) = length ?r"
    by (metis length_append takeWhile_dropWhile_id)
  ultimately have "k \<le> 15 + length ?r" using k by simp
  with len have "k \<le> length s" by simp
  moreover from k have "0 < k" by simp
  ultimately show "0 < k \<and> k \<le> length s" by simp
qed

lemma aa_proper: "proper match_always_apply"
  by (auto simp: proper_def match_always_apply_def prefix_def split: if_splits)

lemma rtc_hd: "match_rule_token_count s = Some k \<Longrightarrow> hd s = CHR ''r''"
  by (auto simp: match_rule_token_count_def prefix_def split: if_splits)

lemma aa_hd: "match_always_apply s = Some k \<Longrightarrow> hd s = CHR ''a''"
  by (auto simp: match_always_apply_def prefix_def split: if_splits)

lemma line_hd: "hd (rule_token_count_line n) = CHR ''r''" "rule_token_count_line n \<noteq> []"
  by (simp_all add: rule_token_count_line_def)

lemma letter_r: "\<not> is_space CHR ''r''" "\<not> is_digit CHR ''r''"
  by (simp_all add: is_space_def is_digit_def)

lemma letter_a: "\<not> is_space CHR ''a''" "\<not> is_digit CHR ''a''"
  by (simp_all add: is_space_def is_digit_def)

lemma letter_led_rtc: "letter_led match_rule_token_count (\<lambda>_. rule_token_count_line n)"
  using rtc_proper by (auto simp: letter_led_def line_hd letter_r dest!: rtc_hd)

lemma letter_led_aa:
  "letter_led match_always_apply (\<lambda>g. rule_token_count_line n @ [NL] @ g)"
  using aa_proper by (auto simp: letter_led_def line_hd letter_r letter_a dest!: aa_hd)

lemma re_sub_bol_match:
  assumes "proper m" "m (c # cs) = Some k"
  shows "re_sub_bol m r True (c # cs) =
           r (take k (c # cs)) @ re_sub_bol m r (last (take k (c # cs)) = NL) (drop k (c # cs))"
proof -
  from assms have "0 < k" unfolding proper_def by blast
  then obtain n where "k = Suc n" by (cases k) auto
  with assms(2) show ?thesis by simp
qed

lemma re_sub_bol_nomatch:
  assumes "b \<longrightarrow> m (c # cs) = None"
  shows "re_sub_bol m r b (c # cs) = c # re_sub_bol m r (c = NL) cs"
  using assms by (cases b) simp_all

lemma value_follows_re_sub_bol:
  assumes "letter_led m r"
  shows "value_follows (re_sub_bol m r b t) = value_follows t"
proof (induction t arbitrary: b)
  case Nil
  show ?case by simp
next
  case (Cons c cs)
  from assms have pm: "proper m" by (simp add: letter_led_def)
  show ?case
  proof (cases "b \<and> m (c # cs) \<noteq> None")
    case True
    then obtain k where k: "m (c # cs) = Some k" and b: b by auto
    from assms k have c: "\<not> is_space c" "\<not> is_digit c" unfolding letter_led_def by fastforce+
    let ?g = "take k (c # cs)"
    from assms have rg: "r ?g \<noteq> []" "\<not> is_space (hd (r ?g))" "\<not> is_digit (hd (r ?g))"
      unfolding letter_led_def by blast+
    then obtain x xs where x: "r ?g = x # xs" by (cases "r ?g") auto
    with rg have "\<not> is_space x" "\<not> is_digit x" by simp_all
    then have "\<not> value_follows (r ?g @ re_sub_bol m r (last ?g = NL) (drop k (c # cs)))"
      unfolding x by (simp add: value_follows_Cons)
    moreover from c have "\<not> value_follows (c # cs)" by (simp add: value_follows_Cons)
    ultimately show ?thesis using re_sub_bol_match [OF pm k] b by simp
  next
    case False
    then have "re_sub_bol m r b (c # cs) = c # re_sub_bol m r (c = NL) cs"
      by (intro re_sub_bol_nomatch) auto
    with Cons show ?thesis by (simp add: value_follows_Cons)
  qed
qed

lemma rtc_after_sub:
  assumes "letter_led m r"
  shows "(match_rule_token_count (c # re_sub_bol m r (c = NL) cs) \<noteq> None)
         = (match_rule_token_count (c # cs) \<noteq> None)"
proof (cases "c = CHR ''r''")
  case False
  then have "\<not> prefix ''ruleTokenCount:'' (c # X)" for X by simp
  then show ?thesis unfolding rtc_iff by blast
next
  case True
  then have nl: "(c = NL) = False" by (simp add: NL_def)
  let ?a = "''uleTokenCount:''"
  have na: "NL \<notin> set ?a" by (simp add: NL_def)
  have p: "prefix ?a (re_sub_bol m r False cs) \<longleftrightarrow> prefix ?a cs"
    by (rule prefix_re_sub_bol_False [OF na])
  show ?thesis
  proof (cases "prefix ?a cs")
    case False
    with p True have "\<not> prefix ''ruleTokenCount:'' (c # re_sub_bol m r False cs)"
      and "\<not> prefix ''ruleTokenCount:'' (c # cs)" by simp_all
    then show ?thesis unfolding nl rtc_iff by blast
  next
    case pt: True
    then obtain t where t: "cs = ?a @ t" by (auto simp: prefix_def)
    have s: "re_sub_bol m r False cs = ?a @ re_sub_bol m r False t"
      unfolding t by (rule re_sub_bol_False_append [OF na])
    have "drop 15 (c # re_sub_bol m r False cs) = re_sub_bol m r False t"
      unfolding s by simp
    moreover have "drop 15 (c # cs) = t" unfolding t by simp
    moreover have "prefix ''ruleTokenCount:'' (c # re_sub_bol m r False cs)"
      unfolding s True by simp
    moreover have "prefix ''ruleTokenCount:'' (c # cs)" unfolding t True by simp
    ultimately show ?thesis unfolding nl rtc_iff
      using value_follows_re_sub_bol [OF assms, of False t] by simp
  qed
qed

section \<open>The frontmatter updater: where the field goes\<close>

lemma rtc_Some_decomp:
  assumes "match_rule_token_count s = Some k"
  shows "\<exists>ws ds. take k s = ''ruleTokenCount:'' @ ws @ ds
           \<and> (\<forall>c \<in> set ws. is_space c) \<and> ds \<noteq> [] \<and> (\<forall>c \<in> set ds. is_digit c)
           \<and> (drop k s = [] \<or> \<not> is_digit (hd (drop k s)))"
proof -
  let ?P = "''ruleTokenCount:''"
  let ?r = "drop 15 s"
  let ?ws = "takeWhile is_space ?r"
  let ?ds = "takeWhile is_digit (dropWhile is_space ?r)"
  let ?rest = "dropWhile is_digit (dropWhile is_space ?r)"
  from assms have p: "prefix ?P s" by (simp add: match_rule_token_count_def split: if_splits)
  from assms p have k: "k = 15 + length ?ws + length ?ds" and ne: "?ds \<noteq> []"
    by (auto simp: match_rule_token_count_def Let_def split: if_splits)
  from p have "s = ?P @ ?r" by (auto simp: prefix_def)
  also have "?r = ?ws @ dropWhile is_space ?r" by simp
  also have "dropWhile is_space ?r = ?ds @ ?rest" by simp
  finally have s: "s = (?P @ ?ws @ ?ds) @ ?rest" by simp
  have len: "length (?P @ ?ws @ ?ds) = k" using k by simp
  have t: "take k s = ?P @ ?ws @ ?ds"
    using s len by (metis append_eq_conv_conj)
  have d: "drop k s = ?rest"
    using s len by (metis append_eq_conv_conj)
  have "?rest = [] \<or> \<not> is_digit (hd ?rest)" by (metis hd_dropWhile)
  moreover have "\<forall>c \<in> set ?ws. is_space c" by (auto dest: set_takeWhileD)
  moreover have "\<forall>c \<in> set ?ds. is_digit c" by (auto dest: set_takeWhileD)
  ultimately show ?thesis using t d ne by metis
qed

lemma rtc_last_not_NL:
  assumes "match_rule_token_count s = Some k"
  shows "last (take k s) \<noteq> NL"
proof -
  from rtc_Some_decomp [OF assms] obtain ws ds where
    t: "take k s = ''ruleTokenCount:'' @ ws @ ds" and ds: "ds \<noteq> []" "\<forall>c \<in> set ds. is_digit c"
    by blast
  from ds have "is_digit (last ds)" by simp
  moreover from t ds have "last (take k s) = last ds" by simp
  ultimately show ?thesis using NL_space space_not_digit by metis
qed

lemma aa_Some:
  assumes "match_always_apply s = Some k"
  shows "k = 12" and "take k s = ''alwaysApply:''"
  using assms by (auto simp: match_always_apply_def prefix_def split: if_splits)

lemma aa_last_not_NL: "match_always_apply s = Some k \<Longrightarrow> last (take k s) \<noteq> NL"
  by (simp add: aa_Some(2) NL_def)

lemma take_drop_slice: "take k (drop i s) = slice i (i + k) s"
  by (simp add: slice_def)

lemma update_text_well_formed:
  "well_formed content \<Longrightarrow>
     update_text content n
       = Inr (''---'' @ [NL] @ update_frontmatter (frontmatter_of content) n
              @ [NL] @ ''---'' @ rest_of content)"
  by (auto simp: well_formed_def update_text_def frontmatter_of_def rest_of_def Let_def)

lemma update_frontmatter_replace:
  assumes "re_search match_rule_token_count fm = Some (i, k)"
  shows "bol_at True fm i"
    and "\<exists>ws ds. slice i (i + k) fm = ''ruleTokenCount:'' @ ws @ ds
           \<and> (\<forall>c \<in> set ws. is_space c) \<and> ds \<noteq> [] \<and> (\<forall>c \<in> set ds. is_digit c)"
    and "update_frontmatter fm n
           = take i fm @ rule_token_count_line n
             @ re_sub_bol match_rule_token_count (\<lambda>_. rule_token_count_line n) False
                 (drop (i + k) fm)"
proof -
  from assms have s: "re_search_bol match_rule_token_count True 0 fm = Some (i, k)"
    by (simp add: re_search_def)
  from re_search_bol_Some [OF s] have m: "match_rule_token_count (drop i fm) = Some k"
    and b: "bol_at True fm i" by simp_all
  show "bol_at True fm i" by (rule b)
  from rtc_Some_decomp [OF m]
  show "\<exists>ws ds. slice i (i + k) fm = ''ruleTokenCount:'' @ ws @ ds
           \<and> (\<forall>c \<in> set ws. is_space c) \<and> ds \<noteq> [] \<and> (\<forall>c \<in> set ds. is_digit c)"
    unfolding take_drop_slice by blast
  from rtc_last_not_NL [OF m] have l: "(last (take k (drop i fm)) = NL) = False" by simp
  from re_sub_bol_Some [OF rtc_proper s, of "\<lambda>_. rule_token_count_line n"] l
  have "re_sub match_rule_token_count (\<lambda>_. rule_token_count_line n) fm
          = take i fm @ rule_token_count_line n
            @ re_sub_bol match_rule_token_count (\<lambda>_. rule_token_count_line n) False
                (drop (i + k) fm)"
    unfolding re_sub_def by simp
  with assms show "update_frontmatter fm n
           = take i fm @ rule_token_count_line n
             @ re_sub_bol match_rule_token_count (\<lambda>_. rule_token_count_line n) False
                 (drop (i + k) fm)"
    by (simp add: update_frontmatter_def)
qed

lemma update_frontmatter_insert:
  assumes "re_search match_rule_token_count fm = None"
    and "re_search match_always_apply fm = Some (i, k)"
  shows "bol_at True fm i"
    and "slice i (i + k) fm = ''alwaysApply:''"
    and "update_frontmatter fm n
           = take i fm @ rule_token_count_line n @ [NL] @ ''alwaysApply:''
             @ re_sub_bol match_always_apply (\<lambda>g. rule_token_count_line n @ [NL] @ g) False
                 (drop (i + k) fm)"
proof -
  from assms(2) have s: "re_search_bol match_always_apply True 0 fm = Some (i, k)"
    by (simp add: re_search_def)
  from re_search_bol_Some [OF s] have m: "match_always_apply (drop i fm) = Some k"
    and b: "bol_at True fm i" by simp_all
  show "bol_at True fm i" by (rule b)
  from aa_Some(2) [OF m] have t: "take k (drop i fm) = ''alwaysApply:''" .
  then show "slice i (i + k) fm = ''alwaysApply:''" unfolding take_drop_slice .
  from aa_last_not_NL [OF m] have l: "(last (take k (drop i fm)) = NL) = False" by simp
  from re_sub_bol_Some [OF aa_proper s, of "\<lambda>g. rule_token_count_line n @ [NL] @ g"] l t
  have "re_sub match_always_apply (\<lambda>g. rule_token_count_line n @ [NL] @ g) fm
          = take i fm @ (rule_token_count_line n @ [NL] @ ''alwaysApply:'')
            @ re_sub_bol match_always_apply (\<lambda>g. rule_token_count_line n @ [NL] @ g) False
                (drop (i + k) fm)"
    unfolding re_sub_def by simp
  with assms show "update_frontmatter fm n
           = take i fm @ rule_token_count_line n @ [NL] @ ''alwaysApply:''
             @ re_sub_bol match_always_apply (\<lambda>g. rule_token_count_line n @ [NL] @ g) False
                 (drop (i + k) fm)"
    by (simp add: update_frontmatter_def)
qed

lemma slice_append_drop:
  "slice i (i + k) s = g \<Longrightarrow> i + k \<le> length s \<Longrightarrow> g @ drop (i + k) s = drop i s"
proof -
  assume a: "slice i (i + k) s = g"
  have "take k (drop i s) @ drop k (drop i s) = drop i s" by (rule append_take_drop_id)
  with a show ?thesis by (simp add: slice_def add.commute)
qed

text \<open>
  Claim C4.  The updater is to replace an existing line-anchored \<^verbatim>\<open>ruleTokenCount\<close> field
  in place and to add a new line only when the frontmatter has no such field.  The test
  at line 68, under the comment \<^verbatim>\<open>Check if ruleTokenCount already exists\<close>, asks for digits
  after the key.  In the first document below the field exists with the value \<^verbatim>\<open>TBD\<close>:
  its line is left as it is and a second \<^verbatim>\<open>ruleTokenCount\<close> line is inserted before
  \<^verbatim>\<open>alwaysApply\<close>, so that the frontmatter has the key twice.  In the second document the
  field exists with an empty value and is the last line: it is left as it is and a
  second \<^verbatim>\<open>ruleTokenCount\<close> line is appended.
\<close>

theorem existing_field_without_digits_duplicated:
  "update_text ''---\<newline>ruleTokenCount: TBD\<newline>alwaysApply: true\<newline>---\<newline>body'' 5
     = Inr ''---\<newline>ruleTokenCount: TBD\<newline>ruleTokenCount: 5\<newline>alwaysApply: true\<newline>---\<newline>body''
   \<and> filter (prefix ''ruleTokenCount:'')
        (split_lines (frontmatter_of
           ''---\<newline>ruleTokenCount: TBD\<newline>ruleTokenCount: 5\<newline>alwaysApply: true\<newline>---\<newline>body''))
       = [''ruleTokenCount: TBD'', ''ruleTokenCount: 5'']
   \<and> update_text ''---\<newline>title: x\<newline>ruleTokenCount:\<newline>---\<newline>body'' 5
       = Inr ''---\<newline>title: x\<newline>ruleTokenCount:\<newline>ruleTokenCount: 5\<newline>---\<newline>body''"
  by code_simp

text \<open>
  Where the field goes, by the test the code makes.  For every text with well-formed
  frontmatter and every token count the
  updater writes the opening delimiter, the updated frontmatter \<open>fm'\<close>, the closing
  delimiter and the text after the old closing delimiter, where \<open>fm'\<close> comes from the
  trimmed frontmatter \<open>fm\<close> by exactly these rules.
  \<^item> If \<open>fm\<close> has a line-anchored \<^verbatim>\<open>ruleTokenCount:\<close> followed by optional whitespace and
    digits, the first such field, at index \<open>i\<close> with length \<open>k\<close>, starts a line; \<open>fm'\<close>
    keeps the text before \<open>i\<close>, has \<^verbatim>\<open>ruleTokenCount: <value>\<close> in its place, and continues
    with the text after the field, in which later such fields are replaced the same
    way; when there is no later one the text after the field is unchanged.
  \<^item> Otherwise, if \<open>fm\<close> has a line that starts with \<^verbatim>\<open>alwaysApply:\<close>, the first one at
    index \<open>i\<close>, the new line \<^verbatim>\<open>ruleTokenCount: <value>\<close> stands immediately before that
    line (and before each later such line); with a single such line \<open>fm'\<close> is \<open>fm\<close> with
    the new line inserted at \<open>i\<close>.
  \<^item> Otherwise \<open>fm'\<close> is \<open>fm\<close>, a newline, and the new line.
\<close>

lemma placement_of_rule_token_count:
  "well_formed content \<Longrightarrow>
     (let fm = frontmatter_of content;
          fm' = update_frontmatter fm n;
          line = rule_token_count_line n
      in update_text content n = Inr (''---'' @ [NL] @ fm' @ [NL] @ ''---'' @ rest_of content)
       \<and> (\<forall>i k. re_search match_rule_token_count fm = Some (i, k) \<longrightarrow>
             bol_at True fm i
           \<and> (\<exists>ws ds. slice i (i + k) fm = ''ruleTokenCount:'' @ ws @ ds
                 \<and> (\<forall>c \<in> set ws. is_space c) \<and> ds \<noteq> [] \<and> (\<forall>c \<in> set ds. is_digit c))
           \<and> fm' = take i fm @ line
                    @ re_sub_bol match_rule_token_count (\<lambda>_. line) False (drop (i + k) fm)
           \<and> (re_search_bol match_rule_token_count False 0 (drop (i + k) fm) = None \<longrightarrow>
                fm' = take i fm @ line @ drop (i + k) fm))
       \<and> (re_search match_rule_token_count fm = None \<longrightarrow>
            (\<forall>i k. re_search match_always_apply fm = Some (i, k) \<longrightarrow>
               bol_at True fm i
             \<and> slice i (i + k) fm = ''alwaysApply:''
             \<and> fm' = take i fm @ line @ [NL] @ ''alwaysApply:''
                      @ re_sub_bol match_always_apply (\<lambda>g. line @ [NL] @ g) False
                          (drop (i + k) fm)
             \<and> (re_search_bol match_always_apply False 0 (drop (i + k) fm) = None \<longrightarrow>
                  fm' = take i fm @ line @ [NL] @ drop i fm)))
       \<and> (re_search match_rule_token_count fm = None
            \<and> re_search match_always_apply fm = None \<longrightarrow>
            fm' = fm @ [NL] @ line))"
proof -
  assume wf: "well_formed content"
  let ?fm = "frontmatter_of content"
  let ?fm' = "update_frontmatter ?fm n"
  let ?L = "rule_token_count_line n"
  have 1: "update_text content n = Inr (''---'' @ [NL] @ ?fm' @ [NL] @ ''---'' @ rest_of content)"
    by (rule update_text_well_formed [OF wf])
  have 2: "bol_at True ?fm i
           \<and> (\<exists>ws ds. slice i (i + k) ?fm = ''ruleTokenCount:'' @ ws @ ds
                 \<and> (\<forall>c \<in> set ws. is_space c) \<and> ds \<noteq> [] \<and> (\<forall>c \<in> set ds. is_digit c))
           \<and> ?fm' = take i ?fm @ ?L
                    @ re_sub_bol match_rule_token_count (\<lambda>_. ?L) False (drop (i + k) ?fm)
           \<and> (re_search_bol match_rule_token_count False 0 (drop (i + k) ?fm) = None \<longrightarrow>
                ?fm' = take i ?fm @ ?L @ drop (i + k) ?fm)"
    if s: "re_search match_rule_token_count ?fm = Some (i, k)" for i k
  proof -
    note R = update_frontmatter_replace(1,2) [OF s] update_frontmatter_replace(3) [OF s, of n]
    have "?fm' = take i ?fm @ ?L @ drop (i + k) ?fm"
      if "re_search_bol match_rule_token_count False 0 (drop (i + k) ?fm) = None"
      using R(3) re_sub_bol_None [OF that] by simp
    with R show ?thesis by blast
  qed
  have 3: "bol_at True ?fm i
             \<and> slice i (i + k) ?fm = ''alwaysApply:''
             \<and> ?fm' = take i ?fm @ ?L @ [NL] @ ''alwaysApply:''
                      @ re_sub_bol match_always_apply (\<lambda>g. ?L @ [NL] @ g) False
                          (drop (i + k) ?fm)
             \<and> (re_search_bol match_always_apply False 0 (drop (i + k) ?fm) = None \<longrightarrow>
                  ?fm' = take i ?fm @ ?L @ [NL] @ drop i ?fm)"
    if n: "re_search match_rule_token_count ?fm = None"
      and s: "re_search match_always_apply ?fm = Some (i, k)" for i k
  proof -
    note R = update_frontmatter_insert(1,2) [OF n s] update_frontmatter_insert(3) [OF n s, of n]
    from s have "re_search_bol match_always_apply True 0 ?fm = Some (i, k)"
      by (simp add: re_search_def)
    from re_search_bol_Some [OF this] have m: "match_always_apply (drop i ?fm) = Some k"
      and le: "i \<le> length ?fm" by simp_all
    from aa_proper m have "k \<le> length (drop i ?fm)" unfolding proper_def by blast
    with le have "i + k \<le> length ?fm" by simp
    from slice_append_drop [OF R(2) this]
    have d: "''alwaysApply:'' @ drop (i + k) ?fm = drop i ?fm" .
    have "?fm' = take i ?fm @ ?L @ [NL] @ drop i ?fm"
      if "re_search_bol match_always_apply False 0 (drop (i + k) ?fm) = None"
      using R(3) re_sub_bol_None [OF that] d by simp
    with R show ?thesis by blast
  qed
  have 4: "?fm' = ?fm @ [NL] @ ?L"
    if "re_search match_rule_token_count ?fm = None \<and> re_search match_always_apply ?fm = None"
    using that by (simp add: update_frontmatter_def)
  from 1 2 3 4 show ?thesis unfolding Let_def by blast
qed

lemma placement_of_rule_token_count_example:
  "well_formed doc_with_count
   \<and> re_search match_rule_token_count (frontmatter_of doc_with_count) = Some (9, 19)
   \<and> re_search_bol match_rule_token_count False 0
        (drop (9 + 19) (frontmatter_of doc_with_count)) = None
   \<and> update_frontmatter (frontmatter_of doc_with_count) 12
       = take 9 (frontmatter_of doc_with_count) @ rule_token_count_line 12
         @ drop (9 + 19) (frontmatter_of doc_with_count)
   \<and> well_formed doc_with_always_apply
   \<and> re_search match_rule_token_count (frontmatter_of doc_with_always_apply) = None
   \<and> re_search match_always_apply (frontmatter_of doc_with_always_apply) = Some (9, 12)
   \<and> re_search_bol match_always_apply False 0
        (drop (9 + 12) (frontmatter_of doc_with_always_apply)) = None
   \<and> update_frontmatter (frontmatter_of doc_with_always_apply) 12
       = take 9 (frontmatter_of doc_with_always_apply) @ rule_token_count_line 12 @ [NL]
         @ drop 9 (frontmatter_of doc_with_always_apply)
   \<and> well_formed doc_with_title
   \<and> (re_search match_rule_token_count (frontmatter_of doc_with_title) = None
      \<and> re_search match_always_apply (frontmatter_of doc_with_title) = None)
   \<and> update_frontmatter (frontmatter_of doc_with_title) 12
       = frontmatter_of doc_with_title @ [NL] @ rule_token_count_line 12"
proof -
  have w1: "well_formed doc_with_count" by code_simp
  have s1: "re_search match_rule_token_count (frontmatter_of doc_with_count) = Some (9, 19)"
    by code_simp
  have n1: "re_search_bol match_rule_token_count False 0
        (drop (9 + 19) (frontmatter_of doc_with_count)) = None" by code_simp
  have w2: "well_formed doc_with_always_apply" by code_simp
  have r2: "re_search match_rule_token_count (frontmatter_of doc_with_always_apply) = None"
    by code_simp
  have s2: "re_search match_always_apply (frontmatter_of doc_with_always_apply) = Some (9, 12)"
    by code_simp
  have n2: "re_search_bol match_always_apply False 0
        (drop (9 + 12) (frontmatter_of doc_with_always_apply)) = None" by code_simp
  have w3: "well_formed doc_with_title" by code_simp
  have n3: "re_search match_rule_token_count (frontmatter_of doc_with_title) = None
      \<and> re_search match_always_apply (frontmatter_of doc_with_title) = None" by code_simp
  from placement_of_rule_token_count [OF w1, of 12, unfolded Let_def] s1 n1
  have c1: "update_frontmatter (frontmatter_of doc_with_count) 12
       = take 9 (frontmatter_of doc_with_count) @ rule_token_count_line 12
         @ drop (9 + 19) (frontmatter_of doc_with_count)"
    by blast
  from placement_of_rule_token_count [OF w2, of 12, unfolded Let_def] r2 s2 n2
  have c2: "update_frontmatter (frontmatter_of doc_with_always_apply) 12
       = take 9 (frontmatter_of doc_with_always_apply) @ rule_token_count_line 12 @ [NL]
         @ drop 9 (frontmatter_of doc_with_always_apply)"
    by blast
  from placement_of_rule_token_count [OF w3, of 12, unfolded Let_def] n3
  have c3: "update_frontmatter (frontmatter_of doc_with_title) 12
       = frontmatter_of doc_with_title @ [NL] @ rule_token_count_line 12"
    by blast
  from w1 s1 n1 c1 w2 r2 s2 n2 c2 w3 n3 c3 show ?thesis by blast
qed

section \<open>Facts about the rewritten file\<close>

lemma sublist_trans: "sublist a b \<Longrightarrow> sublist b c \<Longrightarrow> sublist a c"
  unfolding sublist_def by (metis append.assoc)

lemma prefix_imp_sublist_drop: "prefix p (drop k s) \<Longrightarrow> sublist p s"
  by (metis prefix_def sublist_append_rightI sublist_drop sublist_trans)

lemma sublist_dashes_Cons:
  "sublist ''---'' (c # s) \<longleftrightarrow> (c = CHR ''-'' \<and> prefix ''--'' s) \<or> sublist ''---'' s"
  by (auto simp: sublist_Cons_right)

lemma no_dashes_slice:
  assumes "py_find ''---'' 3 content = Some e"
  shows "\<not> sublist ''---'' (slice 3 e content)"
proof
  assume "sublist ''---'' (slice 3 e content)"
  then obtain a b where ab: "slice 3 e content = a @ ''---'' @ b" by (auto simp: sublist_def)
  then have len: "length a + 3 + length b = length (slice 3 e content)" by simp
  have "length (slice 3 e content) \<le> e - 3" by (simp add: slice_def)
  with len have lt: "3 + length a < e" by simp
  define R where "R = drop (e - 3) (drop 3 content)"
  from ab have ab': "take (e - 3) (drop 3 content) = a @ ''---'' @ b" by (simp only: slice_def)
  have "drop 3 content = take (e - 3) (drop 3 content) @ R"
    unfolding R_def by (rule append_take_drop_id [symmetric])
  then have d: "drop 3 content = a @ ''---'' @ b @ R" unfolding ab' by simp
  have "drop (3 + length a) content = drop (length a) (drop 3 content)"
    by (simp add: add.commute)
  also have "\<dots> = ''---'' @ b @ R"
    unfolding d by simp
  finally have "prefix ''---'' (drop (3 + length a) content)" by simp
  with py_find_Some(4) [OF assms, of "3 + length a"] lt show False by simp
qed

lemma no_dashes_strip: "\<not> sublist xs s \<Longrightarrow> \<not> sublist xs (strip s)"
proof -
  have "sublist (strip s) s"
    unfolding strip_def rstrip_def lstrip_def
    by (metis sublist_dropWhile sublist_rev sublist_trans rev_rev_ident)
  then show "\<not> sublist xs s \<Longrightarrow> \<not> sublist xs (strip s)"
    using sublist_trans by blast
qed

lemma no_dashes_frontmatter:
  "well_formed content \<Longrightarrow> \<not> sublist ''---'' (frontmatter_of content)"
  unfolding frontmatter_of_def well_formed_def
  by (auto intro!: no_dashes_strip no_dashes_slice)

lemma dash_free_append:
  "CHR ''-'' \<notin> set a \<Longrightarrow> sublist ''---'' (a @ t) \<longleftrightarrow> sublist ''---'' t"
  by (induction a) (auto simp: sublist_dashes_Cons)

lemma no_dashes_append_NL:
  "sublist ''---'' (a @ NL # t) \<longleftrightarrow> sublist ''---'' a \<or> sublist ''---'' t"
proof (induction a)
  case Nil
  show ?case by (simp add: sublist_dashes_Cons NL_def)
next
  case (Cons x a)
  have "prefix ''--'' (a @ NL # t) \<longleftrightarrow> prefix ''--'' a"
  proof (cases a)
    case Nil
    then show ?thesis by (simp add: NL_def)
  next
    case (Cons y a')
    then show ?thesis by (cases a') (auto simp: NL_def)
  qed
  with Cons show ?case by (auto simp: sublist_dashes_Cons)
qed

lemma no_dashes_re_sub_bol:
  assumes pm: "proper m"
    and r: "\<And>s k. m s = Some k \<Longrightarrow> CHR ''-'' \<notin> set (r (take k s))"
  shows "\<not> sublist ''---'' s \<Longrightarrow> \<not> sublist ''---'' (re_sub_bol m r b s)"
proof (induction "length s" arbitrary: s b rule: less_induct)
  case less
  show ?case
  proof (cases s)
    case Nil
    then show ?thesis by simp
  next
    case (Cons c cs)
    show ?thesis
    proof (cases "b \<and> m (c # cs) \<noteq> None")
      case True
      then obtain k where k: "m (c # cs) = Some k" and b: b by auto
      from pm k have k0: "0 < k" unfolding proper_def by blast
      have "\<not> sublist ''---'' (drop k (c # cs))"
        using less.prems Cons sublist_drop sublist_trans by blast
      moreover from k0 have "length (drop k (c # cs)) < length s" unfolding Cons by simp
      ultimately have "\<not> sublist ''---''
          (re_sub_bol m r (last (take k (c # cs)) = NL) (drop k (c # cs)))"
        by (rule less.hyps [rotated])
      with r [OF k] have "\<not> sublist ''---'' (r (take k (c # cs))
          @ re_sub_bol m r (last (take k (c # cs)) = NL) (drop k (c # cs)))"
        by (simp add: dash_free_append)
      with re_sub_bol_match [OF pm k, of r] b Cons show ?thesis by simp
    next
      case False
      then have e: "re_sub_bol m r b (c # cs) = c # re_sub_bol m r (c = NL) cs"
        by (intro re_sub_bol_nomatch) auto
      from less.prems Cons have ncs: "\<not> sublist ''---'' cs"
        and np: "\<not> (c = CHR ''-'' \<and> prefix ''--'' cs)"
        by (simp_all add: sublist_dashes_Cons)
      have ih: "\<not> sublist ''---'' (re_sub_bol m r (c = NL) cs)"
        by (rule less.hyps [OF _ ncs]) (simp add: Cons)
      have "\<not> (c = CHR ''-'' \<and> prefix ''--'' (re_sub_bol m r (c = NL) cs))"
      proof
        assume a: "c = CHR ''-'' \<and> prefix ''--'' (re_sub_bol m r (c = NL) cs)"
        then have "(c = NL) = False" by (simp add: NL_def)
        with a have "prefix ''--'' (re_sub_bol m r False cs)" by simp
        moreover have "NL \<notin> set ''--''" by (simp add: NL_def)
        ultimately have "prefix ''--'' cs"
          using prefix_re_sub_bol_False [of "''--''" m r cs] by blast
        with a np show False by simp
      qed
      with ih e Cons show ?thesis by (simp add: sublist_dashes_Cons)
    qed
  qed
qed

lemma dash_free_line: "CHR ''-'' \<notin> set (rule_token_count_line n)"
proof -
  have "\<not> is_digit CHR ''-''" by (simp add: is_digit_def)
  with str_of_nat_digits [of n] have "CHR ''-'' \<notin> set (str_of_nat n)" by blast
  then show ?thesis by (simp add: rule_token_count_line_def)
qed

lemma no_dashes_line: "\<not> sublist ''---'' (rule_token_count_line n)"
  using dash_free_append [OF dash_free_line, of n "[]"] by simp

lemma no_dashes_update_frontmatter:
  assumes "\<not> sublist ''---'' fm"
  shows "\<not> sublist ''---'' (update_frontmatter fm n)"
proof -
  have 1: "\<not> sublist ''---''
      (re_sub match_rule_token_count (\<lambda>_. rule_token_count_line n) fm)"
    unfolding re_sub_def
    by (rule no_dashes_re_sub_bol [OF rtc_proper _ assms]) (rule dash_free_line)
  have 2: "\<not> sublist ''---''
      (re_sub match_always_apply (\<lambda>g. rule_token_count_line n @ [NL] @ g) fm)"
    unfolding re_sub_def
  proof (rule no_dashes_re_sub_bol [OF aa_proper _ assms])
    fix s k assume "match_always_apply s = Some k"
    from aa_Some(2) [OF this]
    show "CHR ''-'' \<notin> set (rule_token_count_line n @ [NL] @ take k s)"
      using dash_free_line [of n] by (simp add: NL_def)
  qed
  have 3: "\<not> sublist ''---'' (fm @ [NL] @ rule_token_count_line n)"
    using assms no_dashes_line [of n] by (simp add: no_dashes_append_NL)
  from 1 2 3 show ?thesis by (simp add: update_frontmatter_def)
qed

lemma prefix_dashes_before_NL: "prefix ''---'' (u @ NL # v) \<Longrightarrow> prefix ''---'' u"
proof (cases u)
  case Nil
  assume "prefix ''---'' (u @ NL # v)"
  with Nil show ?thesis by (simp add: NL_def)
next
  case (Cons a u1)
  assume p: "prefix ''---'' (u @ NL # v)"
  show ?thesis
  proof (cases u1)
    case Nil
    with p Cons show ?thesis by (simp add: NL_def)
  next
    case c2: (Cons b u2)
    show ?thesis
    proof (cases u2)
      case Nil
      with p Cons c2 show ?thesis by (simp add: NL_def)
    next
      case c3: (Cons c u3)
      with p Cons c2 show ?thesis by auto
    qed
  qed
qed

lemma rebuilt_find:
  assumes "\<not> sublist ''---'' F"
  shows "py_find ''---'' 3 (''---'' @ [NL] @ F @ [NL] @ ''---'' @ rest) = Some (length F + 5)"
proof (rule py_find_first)
  let ?new = "''---'' @ [NL] @ F @ [NL] @ ''---'' @ rest"
  show "3 \<le> length F + 5" by simp
  show "length F + 5 \<le> length ?new" by simp
  have "?new = (''---'' @ [NL] @ F @ [NL]) @ (''---'' @ rest)" by simp
  moreover have "length (''---'' @ [NL] @ F @ [NL]) = length F + 5" by simp
  ultimately have "drop (length F + 5) ?new = ''---'' @ rest"
    by (metis append_eq_conv_conj)
  then show "prefix ''---'' (drop (length F + 5) ?new)" by simp
  show "\<forall>k. 3 \<le> k \<and> k < length F + 5 \<longrightarrow> \<not> prefix ''---'' (drop k ?new)"
  proof (intro allI impI notI)
    fix k assume k: "3 \<le> k \<and> k < length F + 5" and p: "prefix ''---'' (drop k ?new)"
    from k have "k - 3 + 3 = k" by simp
    then have "drop k ?new = drop (k - 3) (drop 3 ?new)" by (simp only: drop_drop)
    then have d3: "drop k ?new = drop (k - 3) (NL # F @ NL # ''---'' @ rest)" by simp
    show False
    proof (cases "k = 3")
      case True
      with p d3 show False by (simp add: NL_def)
    next
      case False
      with k have k4: "4 \<le> k" "k - 4 \<le> length F" by arith+
      from k4 have "k - 3 = Suc (k - 4)" by simp
      with d3 have "drop k ?new = drop (k - 4) (F @ NL # ''---'' @ rest)" by simp
      also from k4 have "\<dots> = drop (k - 4) F @ NL # ''---'' @ rest" by simp
      finally have "prefix ''---'' (drop (k - 4) F @ NL # ''---'' @ rest)" using p by simp
      then have "prefix ''---'' (drop (k - 4) F)" by (rule prefix_dashes_before_NL)
      then have "sublist ''---'' F" by (rule prefix_imp_sublist_drop)
      with assms show False by simp
    qed
  qed
qed

lemma lstrip_NL: "lstrip (NL # s) = lstrip s"
  by (simp add: lstrip_def NL_space)

lemma rstrip_NL: "rstrip (s @ [NL]) = rstrip s"
  by (simp add: rstrip_def NL_space)

lemma strip_NL: "strip (NL # F @ [NL]) = strip F"
proof (cases "\<forall>c \<in> set F. is_space c")
  case True
  then have "dropWhile is_space F = []" by simp
  moreover from True have "dropWhile is_space (NL # F @ [NL]) = []" by (simp add: NL_space)
  ultimately show ?thesis unfolding strip_def lstrip_def by (simp only:)
next
  case False
  then obtain x where "x \<in> set F" "\<not> is_space x" by blast
  then have "lstrip (F @ [NL]) = lstrip F @ [NL]"
    unfolding lstrip_def by (rule dropWhile_append1)
  then show ?thesis by (simp add: strip_def lstrip_NL rstrip_NL)
qed

lemma dropWhile_id: "xs = [] \<or> \<not> P (hd xs) \<Longrightarrow> dropWhile P xs = xs"
  by (cases xs) auto

lemma strip_fixed:
  assumes "t = [] \<or> (\<not> is_space (hd t) \<and> \<not> is_space (last t))"
  shows "strip t = t"
proof -
  from assms have l: "lstrip t = t" unfolding lstrip_def by (intro dropWhile_id) auto
  from assms have "rev t = [] \<or> \<not> is_space (hd (rev t))" by (auto simp: hd_rev)
  then have "dropWhile is_space (rev t) = rev t" by (rule dropWhile_id)
  then have "rstrip t = t" by (simp add: rstrip_def)
  with l show ?thesis by (simp add: strip_def)
qed

lemma strip_ends:
  "strip s = [] \<or> (\<not> is_space (hd (strip s)) \<and> \<not> is_space (last (strip s)))"
proof (cases "strip s = []")
  case False
  define u where "u = lstrip s"
  define t where "t = rstrip u"
  have st: "strip s = t" by (simp add: strip_def t_def u_def)
  have l: "u = [] \<or> \<not> is_space (hd u)" unfolding u_def lstrip_def by (metis hd_dropWhile)
  have r: "rev t = dropWhile is_space (rev u)" by (simp add: t_def rstrip_def)
  then have "rev t = [] \<or> \<not> is_space (hd (rev t))" by (metis hd_dropWhile)
  with False st have la: "\<not> is_space (last t)" by (simp add: hd_rev)
  have "rev u = takeWhile is_space (rev u) @ rev t" unfolding r by simp
  then have "u = t @ rev (takeWhile is_space (rev u))" by (metis rev_append rev_rev_ident)
  with False st have "hd u = hd t" "u \<noteq> []" by (metis hd_append2, auto)
  with l have "\<not> is_space (hd t)" by simp
  with la st show ?thesis by simp
qed simp

lemma strip_idem: "strip (strip s) = strip s"
  by (rule strip_fixed) (rule strip_ends)

lemma reread_rebuilt:
  fixes F rest :: string
  assumes "\<not> sublist ''---'' F"
  defines "new \<equiv> ''---'' @ [NL] @ F @ [NL] @ ''---'' @ rest"
  shows "well_formed new" and "rest_of new = rest" and "frontmatter_of new = strip F"
    and "extract_text new = lstrip rest"
proof -
  have f: "py_find ''---'' 3 new = Some (length F + 5)"
    unfolding new_def by (rule rebuilt_find [OF assms(1)])
  then show "well_formed new" by (simp add: well_formed_def new_def)
  have "new = (''---'' @ [NL] @ F @ [NL] @ ''---'') @ rest"
    and "length (''---'' @ [NL] @ F @ [NL] @ ''---'') = length F + 5 + 3"
    by (simp_all add: new_def)
  then have d: "drop (length F + 5 + 3) new = rest" by (metis append_eq_conv_conj)
  with f show "rest_of new = rest" by (simp add: rest_of_def)
  from f d show "extract_text new = lstrip rest" by (simp add: extract_text_def)
  have "drop 3 new = (NL # F @ [NL]) @ (''---'' @ rest)" by (simp add: new_def)
  moreover have "length (NL # F @ [NL]) = length F + 5 - 3" by simp
  ultimately have "take (length F + 5 - 3) (drop 3 new) = NL # F @ [NL]"
    by (metis append_eq_conv_conj)
  with f show "frontmatter_of new = strip F"
    by (simp add: frontmatter_of_def slice_def strip_NL)
qed

section \<open>Facts about the lines of the frontmatter\<close>

lemma split_lines_acc_hd_tl:
  "split_lines_acc cur t = (rev cur @ hd (split_lines t)) # tl (split_lines t)"
proof (induction t arbitrary: cur)
  case Nil
  show ?case by (simp add: split_lines_def)
next
  case (Cons c cs)
  show ?case
  proof (cases "c = NL")
    case True
    then show ?thesis by (simp add: split_lines_def)
  next
    case False
    have "split_lines (c # cs) = split_lines_acc [c] cs" using False by (simp add: split_lines_def)
    also have "\<dots> = ([c] @ hd (split_lines cs)) # tl (split_lines cs)"
      using Cons [of "[c]"] by simp
    finally have s: "split_lines (c # cs) = (c # hd (split_lines cs)) # tl (split_lines cs)"
      by simp
    have "split_lines_acc cur (c # cs) = split_lines_acc (c # cur) cs" using False by simp
    also have "\<dots> = (rev (c # cur) @ hd (split_lines cs)) # tl (split_lines cs)"
      by (rule Cons)
    finally show ?thesis unfolding s by simp
  qed
qed

lemma split_lines_Nil: "split_lines [] = [[]]"
  by (simp add: split_lines_def)

lemma split_lines_Cons:
  "split_lines (c # cs) =
     (if c = NL then [] # split_lines cs
      else (c # hd (split_lines cs)) # tl (split_lines cs))"
proof (cases "c = NL")
  case True
  then show ?thesis by (simp add: split_lines_def)
next
  case False
  then have "split_lines (c # cs) = split_lines_acc [c] cs" by (simp add: split_lines_def)
  with False show ?thesis by (simp add: split_lines_acc_hd_tl [of "[c]"])
qed

lemma split_lines_not_Nil: "split_lines s \<noteq> []"
  by (cases s) (simp_all add: split_lines_Nil split_lines_Cons)

lemma split_lines_collapse: "hd (split_lines s) # tl (split_lines s) = split_lines s"
  using split_lines_not_Nil by simp

lemma hd_split_lines: "hd (split_lines s) = takeWhile (\<lambda>c. c \<noteq> NL) s"
  by (induction s) (simp_all add: split_lines_Nil split_lines_Cons)

lemma split_lines_line_append:
  "NL \<notin> set a \<Longrightarrow> split_lines (a @ t) = (a @ hd (split_lines t)) # tl (split_lines t)"
proof (induction a)
  case Nil
  show ?case by (simp add: split_lines_collapse)
next
  case (Cons x a)
  then have "x \<noteq> NL" by auto
  with Cons show ?case by (simp add: split_lines_Cons)
qed

lemma split_lines_append_NL:
  "split_lines (a @ NL # t) = split_lines a @ split_lines t"
proof (induction a)
  case Nil
  show ?case by (simp add: split_lines_Nil split_lines_Cons)
next
  case (Cons x a)
  then show ?case
    using split_lines_not_Nil [of a] by (cases "split_lines a") (simp_all add: split_lines_Cons)
qed

lemma prefix_takeWhile:
  "\<forall>x \<in> set a. P x \<Longrightarrow> prefix a (takeWhile P s) \<longleftrightarrow> prefix a s"
proof (induction a arbitrary: s)
  case Nil
  show ?case by simp
next
  case (Cons x a)
  then show ?case by (cases s) auto
qed

lemma NL_free_line: "NL \<notin> set (rule_token_count_line n)"
proof -
  have "\<not> is_digit NL" using NL_space space_not_digit by blast
  with str_of_nat_digits [of n] have "NL \<notin> set (str_of_nat n)" by blast
  then show ?thesis by (simp add: rule_token_count_line_def NL_def)
qed

lemma rtc_line:
  assumes "t = [] \<or> \<not> is_digit (hd t)"
  shows "match_rule_token_count (rule_token_count_line n @ t)
           = Some (length (rule_token_count_line n))"
proof -
  let ?D = "str_of_nat n"
  from str_of_nat_digits [of n] have ne: "?D \<noteq> []" and dg: "\<And>c. c \<in> set ?D \<Longrightarrow> is_digit c"
    by blast+
  from ne obtain d ds where D: "?D = d # ds" by (cases ?D) auto
  with dg have d: "is_digit d" by simp
  then have nd: "\<not> is_space d" using space_not_digit by blast
  have sp: "is_space CHR '' ''" by (simp add: is_space_def)
  have dr: "drop 15 (rule_token_count_line n @ t) = CHR '' '' # ?D @ t"
    by (simp add: rule_token_count_line_def)
  have tw: "takeWhile is_space (CHR '' '' # ?D @ t) = [CHR '' '']"
    using sp nd by (simp add: D)
  have dw: "dropWhile is_space (CHR '' '' # ?D @ t) = ?D @ t"
    using sp nd by (simp add: D)
  have "takeWhile is_digit t = []" using assms by (cases t) auto
  with dg have td: "takeWhile is_digit (?D @ t) = ?D" by (simp add: takeWhile_append2)
  have p: "prefix ''ruleTokenCount:'' (rule_token_count_line n @ t)"
    by (simp add: rule_token_count_line_def)
  have "length (rule_token_count_line n) = 15 + 1 + length ?D"
    by (simp add: rule_token_count_line_def)
  with p ne show ?thesis
    unfolding match_rule_token_count_def dr Let_def tw dw td by simp
qed

lemma lines_of_tl_positions:
  "l \<in> set (tl (split_lines s)) \<Longrightarrow>
     \<exists>p. 0 < p \<and> p \<le> length s \<and> s ! (p - 1) = NL \<and> l = takeWhile (\<lambda>c. c \<noteq> NL) (drop p s)"
proof (induction s)
  case Nil
  then show ?case by (simp add: split_lines_Nil)
next
  case (Cons c cs)
  have step: "\<exists>p. 0 < p \<and> p \<le> length (c # cs) \<and> (c # cs) ! (p - 1) = NL
                \<and> l = takeWhile (\<lambda>c. c \<noteq> NL) (drop p (c # cs))"
    if "l \<in> set (tl (split_lines cs))"
  proof -
    from Cons.IH [OF that] obtain p where p: "0 < p" "p \<le> length cs" "cs ! (p - 1) = NL"
      "l = takeWhile (\<lambda>c. c \<noteq> NL) (drop p cs)" by blast
    from p(1) obtain q where q: "p = Suc q" by (cases p) auto
    with p have "0 < Suc p \<and> Suc p \<le> length (c # cs) \<and> (c # cs) ! (Suc p - 1) = NL
                \<and> l = takeWhile (\<lambda>c. c \<noteq> NL) (drop (Suc p) (c # cs))"
      by simp
    then show ?thesis by blast
  qed
  show ?case
  proof (cases "c = NL")
    case False
    with Cons.prems have "l \<in> set (tl (split_lines cs))" by (simp add: split_lines_Cons)
    then show ?thesis by (rule step)
  next
    case True
    with Cons.prems have "l \<in> set (split_lines cs)" by (simp add: split_lines_Cons)
    then have "l = hd (split_lines cs) \<or> l \<in> set (tl (split_lines cs))"
      using split_lines_collapse [of cs] by (metis set_ConsD)
    then show ?thesis
    proof
      assume "l = hd (split_lines cs)"
      with True have "0 < (1::nat) \<and> 1 \<le> length (c # cs) \<and> (c # cs) ! (1 - 1) = NL
                \<and> l = takeWhile (\<lambda>c. c \<noteq> NL) (drop 1 (c # cs))"
        by (simp add: hd_split_lines)
      then show ?thesis by blast
    next
      assume "l \<in> set (tl (split_lines cs))"
      then show ?thesis by (rule step)
    qed
  qed
qed

lemma lines_positions:
  assumes "l \<in> set (split_lines s)"
  shows "\<exists>p. p \<le> length s \<and> bol_at True s p \<and> l = takeWhile (\<lambda>c. c \<noteq> NL) (drop p s)"
proof -
  from assms have "l = hd (split_lines s) \<or> l \<in> set (tl (split_lines s))"
    using split_lines_collapse [of s] by (metis set_ConsD)
  then show ?thesis
  proof
    assume "l = hd (split_lines s)"
    then have "0 \<le> length s \<and> bol_at True s 0 \<and> l = takeWhile (\<lambda>c. c \<noteq> NL) (drop 0 s)"
      by (simp add: hd_split_lines bol_at_def)
    then show ?thesis by blast
  next
    assume "l \<in> set (tl (split_lines s))"
    from lines_of_tl_positions [OF this] obtain p where
      "0 < p" "p \<le> length s" "s ! (p - 1) = NL" "l = takeWhile (\<lambda>c. c \<noteq> NL) (drop p s)"
      by blast
    then have "p \<le> length s \<and> bol_at True s p \<and> l = takeWhile (\<lambda>c. c \<noteq> NL) (drop p s)"
      by (simp add: bol_at_def)
    then show ?thesis by blast
  qed
qed

lemma line_not_in_lines:
  assumes "re_search match_rule_token_count s = None"
  shows "rule_token_count_line n \<notin> set (split_lines s)"
proof
  let ?L = "rule_token_count_line n"
  assume "?L \<in> set (split_lines s)"
  from lines_positions [OF this] obtain p where p: "p \<le> length s" "bol_at True s p"
    and l: "?L = takeWhile (\<lambda>c. c \<noteq> NL) (drop p s)" by blast
  let ?t = "dropWhile (\<lambda>c. c \<noteq> NL) (drop p s)"
  have d: "drop p s = ?L @ ?t" unfolding l by simp
  have "?t = [] \<or> hd ?t = NL" by (metis (mono_tags, lifting) hd_dropWhile)
  then have "?t = [] \<or> \<not> is_digit (hd ?t)" using NL_space space_not_digit by metis
  from rtc_line [OF this, of n] d have "match_rule_token_count (drop p s) \<noteq> None" by simp
  moreover from assms have "re_search_bol match_rule_token_count True 0 s = None"
    by (simp add: re_search_def)
  from re_search_bol_None [OF this p] have "match_rule_token_count (drop p s) = None" .
  ultimately show False by simp
qed

lemma insert_before_Nil: "insert_before_always_apply L [] = []"
  by (simp add: insert_before_always_apply_def)

lemma insert_before_Cons:
  "insert_before_always_apply L (l # ls) =
     (if prefix ''alwaysApply:'' l then L # l # insert_before_always_apply L ls
      else l # insert_before_always_apply L ls)"
  by (simp add: insert_before_always_apply_def)

lemma filter_insert_before:
  "L \<notin> set ls \<Longrightarrow> filter (\<lambda>l. l \<noteq> L) (insert_before_always_apply L ls) = ls"
  by (induction ls) (auto simp: insert_before_Nil insert_before_Cons)

lemma NL_free_always_apply: "NL \<notin> set ''alwaysApply:''"
  by (simp add: NL_def)

lemma prefix_first_line:
  "prefix ''alwaysApply:'' (hd (split_lines s)) \<longleftrightarrow> prefix ''alwaysApply:'' s"
  unfolding hd_split_lines using NL_free_always_apply by (intro prefix_takeWhile) auto

lemma lines_re_sub_always_apply:
  fixes n :: nat
  defines "L \<equiv> rule_token_count_line n"
  defines "r \<equiv> (\<lambda>g. L @ [NL] @ g)"
  shows "split_lines (re_sub_bol match_always_apply r True s)
           = insert_before_always_apply L (split_lines s)
       \<and> split_lines (re_sub_bol match_always_apply r False s)
           = hd (split_lines s) # insert_before_always_apply L (tl (split_lines s))"
proof (induction "length s" arbitrary: s rule: less_induct)
  case less
  show ?case
  proof (cases s)
    case Nil
    then show ?thesis by (simp add: split_lines_Nil insert_before_Nil insert_before_Cons)
  next
    case (Cons c cs)
    have ih1: "split_lines (re_sub_bol match_always_apply r True cs)
                 = insert_before_always_apply L (split_lines cs)"
      and ih2: "split_lines (re_sub_bol match_always_apply r False cs)
                 = hd (split_lines cs) # insert_before_always_apply L (tl (split_lines cs))"
      using less [of cs] Cons by simp_all
    \<comment> \<open>the result when no match starts at the first character\<close>
    have step: "split_lines (c # re_sub_bol match_always_apply r (c = NL) cs)
                 = hd (split_lines (c # cs))
                   # insert_before_always_apply L (tl (split_lines (c # cs)))"
    proof (cases "c = NL")
      case True
      with ih1 show ?thesis by (simp add: split_lines_Cons)
    next
      case False
      with ih2 show ?thesis by (simp add: split_lines_Cons)
    qed
    have 2: "split_lines (re_sub_bol match_always_apply r False s)
           = hd (split_lines s) # insert_before_always_apply L (tl (split_lines s))"
      unfolding Cons re_sub_bol_False_Cons by (rule step)
    have 1: "split_lines (re_sub_bol match_always_apply r True s)
           = insert_before_always_apply L (split_lines s)"
    proof (cases "match_always_apply (c # cs)")
      case None
      then have "re_sub_bol match_always_apply r True (c # cs)
                   = c # re_sub_bol match_always_apply r (c = NL) cs"
        by (intro re_sub_bol_nomatch) simp
      moreover from None have "\<not> prefix ''alwaysApply:'' (c # cs)"
        by (simp add: match_always_apply_def split: if_splits)
      then have "\<not> prefix ''alwaysApply:'' (hd (split_lines (c # cs)))"
        using prefix_first_line [of "c # cs"] by blast
      then have "insert_before_always_apply L (split_lines (c # cs))
          = hd (split_lines (c # cs)) # insert_before_always_apply L (tl (split_lines (c # cs)))"
        using insert_before_Cons [of L "hd (split_lines (c # cs))" "tl (split_lines (c # cs))"]
        by (simp add: split_lines_collapse)
      ultimately show ?thesis unfolding Cons using step by simp
    next
      case (Some k)
      note A = aa_Some [OF Some]
      let ?t = "drop k (c # cs)"
      have s: "c # cs = ''alwaysApply:'' @ ?t" using A(2) by (metis append_take_drop_id)
      from A(1) have "length ?t < length s" unfolding Cons by simp
      from less [OF this]
      have iht: "split_lines (re_sub_bol match_always_apply r False ?t)
                 = hd (split_lines ?t) # insert_before_always_apply L (tl (split_lines ?t))"
        by simp
      from aa_last_not_NL [OF Some] have l: "(last (take k (c # cs)) = NL) = False" by simp
      have "re_sub_bol match_always_apply r True (c # cs)
              = L @ NL # (''alwaysApply:'' @ re_sub_bol match_always_apply r False ?t)"
        unfolding re_sub_bol_match [OF aa_proper Some] l unfolding A(2) r_def by simp
      then have "split_lines (re_sub_bol match_always_apply r True (c # cs))
              = split_lines L
                @ split_lines (''alwaysApply:'' @ re_sub_bol match_always_apply r False ?t)"
        by (simp only: split_lines_append_NL)
      also have "split_lines L = [L]"
        using split_lines_line_append [OF NL_free_line, of n "[]"]
        by (simp add: L_def split_lines_Nil)
      also have "split_lines (''alwaysApply:'' @ re_sub_bol match_always_apply r False ?t)
              = (''alwaysApply:'' @ hd (split_lines ?t))
                # insert_before_always_apply L (tl (split_lines ?t))"
        unfolding split_lines_line_append [OF NL_free_always_apply] iht by simp
      finally have lhs: "split_lines (re_sub_bol match_always_apply r True (c # cs))
              = L # (''alwaysApply:'' @ hd (split_lines ?t))
                # insert_before_always_apply L (tl (split_lines ?t))"
        by simp
      have "split_lines (c # cs) = (''alwaysApply:'' @ hd (split_lines ?t)) # tl (split_lines ?t)"
        by (subst s) (rule split_lines_line_append [OF NL_free_always_apply])
      then have "insert_before_always_apply L (split_lines (c # cs))
              = L # (''alwaysApply:'' @ hd (split_lines ?t))
                # insert_before_always_apply L (tl (split_lines ?t))"
        by (simp add: insert_before_Cons)
      with lhs show ?thesis unfolding Cons by simp
    qed
    from 1 2 show ?thesis ..
  qed
qed

lemma lines_update_frontmatter_no_count:
  assumes "re_search match_rule_token_count fm = None"
  shows "filter (\<lambda>l. l \<noteq> rule_token_count_line n) (split_lines (update_frontmatter fm n))
           = split_lines fm"
proof -
  let ?L = "rule_token_count_line n"
  note nin = line_not_in_lines [OF assms, of n]
  show ?thesis
  proof (cases "re_search match_always_apply fm = None")
    case True
    with assms have "update_frontmatter fm n = fm @ NL # ?L"
      by (simp add: update_frontmatter_def)
    moreover have "split_lines ?L = [?L]"
      using split_lines_line_append [OF NL_free_line, of n "[]"] by (simp add: split_lines_Nil)
    ultimately have "split_lines (update_frontmatter fm n) = split_lines fm @ [?L]"
      by (simp add: split_lines_append_NL)
    with nin show ?thesis by (auto simp: filter_id_conv)
  next
    case False
    with assms have "update_frontmatter fm n
        = re_sub_bol match_always_apply (\<lambda>g. ?L @ [NL] @ g) True fm"
      by (simp add: update_frontmatter_def re_sub_def)
    with lines_re_sub_always_apply [of n fm]
    have "split_lines (update_frontmatter fm n)
            = insert_before_always_apply ?L (split_lines fm)" by simp
    with nin show ?thesis by (simp add: filter_insert_before)
  qed
qed

section \<open>The frontmatter updater: round trip\<close>

lemma extract_text_well_formed:
  "well_formed content \<Longrightarrow> extract_text content = lstrip (rest_of content)"
  by (auto simp: well_formed_def extract_text_def rest_of_def)

lemma line_in_lines_at_bol:
  assumes "bol_at True s i" "i \<le> length s" "NL \<notin> set l"
  shows "l \<in> set (split_lines (take i s @ l @ NL # t))"
proof -
  have l: "split_lines (l @ NL # t) = split_lines l @ split_lines t"
    by (rule split_lines_append_NL)
  have sl: "split_lines l = [l]"
    using split_lines_line_append [OF assms(3), of "[]"] by (simp add: split_lines_Nil)
  show ?thesis
  proof (cases i)
    case 0
    with l sl show ?thesis by simp
  next
    case (Suc j)
    with assms have "s ! j = NL" "j < length s" by (simp_all add: bol_at_def)
    then have "take i s = take j s @ [NL]" unfolding Suc by (simp add: take_Suc_conv_app_nth)
    then have "split_lines (take i s @ l @ NL # t)
                 = split_lines (take j s) @ split_lines (l @ NL # t)"
      using split_lines_append_NL [of "take j s" "l @ NL # t"] by simp
    with l sl show ?thesis by simp
  qed
qed

lemma line_in_updated_no_count:
  assumes "re_search match_rule_token_count fm = None"
  shows "rule_token_count_line n \<in> set (split_lines (update_frontmatter fm n))"
proof (cases "re_search match_always_apply fm")
  case None
  with assms have "update_frontmatter fm n = fm @ NL # rule_token_count_line n"
    by (simp add: update_frontmatter_def)
  moreover have "split_lines (rule_token_count_line n) = [rule_token_count_line n]"
    using split_lines_line_append [OF NL_free_line, of n "[]"] by (simp add: split_lines_Nil)
  ultimately show ?thesis by (simp add: split_lines_append_NL)
next
  case (Some ik)
  obtain i k where ik: "ik = (i, k)" by (cases ik)
  with Some have s: "re_search match_always_apply fm = Some (i, k)" by simp
  note R = update_frontmatter_insert(1) [OF assms s] update_frontmatter_insert(3) [OF assms s, of n]
  from s have "re_search_bol match_always_apply True 0 fm = Some (i, k)"
    by (simp add: re_search_def)
  from re_search_bol_Some [OF this] have le: "i \<le> length fm" by simp
  from line_in_lines_at_bol [OF R(1) le NL_free_line] R(2) show ?thesis by simp
qed

text \<open>
  Claim C5.  After an update the frontmatter is to have the same fields as before plus
  the updated \<^verbatim>\<open>ruleTokenCount\<close>.  The pattern of lines 68 and 71, used under the comment
  \<^verbatim>\<open>Update existing\<close> to replace the value of the field on its line, has the class \<^verbatim>\<open>\s\<close>
  between the key and the digits, and that class also matches newlines.  In the
  document below the field \<^verbatim>\<open>ruleTokenCount\<close> has an empty value and the next line starts
  with digits: the match runs from \<^verbatim>\<open>ruleTokenCount:\<close> over the line end into the next
  line, the two lines are merged, and the field \<^verbatim>\<open>123abc\<close> is gone after the update.
\<close>

theorem update_loses_field:
  "well_formed doc_with_split_count
   \<and> update_text doc_with_split_count 7 = Inr ''---\<newline>ruleTokenCount: 7abc: foo\<newline>---\<newline>body''
   \<and> field_keys (frontmatter_of doc_with_split_count) = [''ruleTokenCount'', ''123abc'']
   \<and> field_keys (frontmatter_of ''---\<newline>ruleTokenCount: 7abc: foo\<newline>---\<newline>body'')
       = [''ruleTokenCount'']"
  by code_simp

text \<open>
  What the rewritten text keeps.  For every text with well-formed frontmatter and every
  token count the update succeeds and the rewritten text is the opening delimiter, a newline, the
  updated trimmed frontmatter \<open>fm'\<close>, a newline, the closing delimiter and the text that
  followed the old closing delimiter, unchanged.  The rewritten text is well formed
  again, the text after its closing delimiter is the same, and extracting the body from
  it gives the body of the original text; its frontmatter reads back as \<open>fm'\<close>, trimmed.
  When the trimmed frontmatter \<open>fm\<close> had no matching \<^verbatim>\<open>ruleTokenCount\<close> field, the lines
  of \<open>fm'\<close> are the lines of \<open>fm\<close>, all kept in their order, with the line
  \<^verbatim>\<open>ruleTokenCount: <value>\<close> added.  When it had one, the text before the first match
  is kept, the match is replaced by \<^verbatim>\<open>ruleTokenCount: <value>\<close>, and the text after it is
  kept but for later matches, replaced the same way.
\<close>

lemma update_round_trip:
  "well_formed content \<Longrightarrow>
     (let fm = frontmatter_of content;
          fm' = update_frontmatter fm n;
          line = rule_token_count_line n;
          new_content = ''---'' @ [NL] @ fm' @ [NL] @ ''---'' @ rest_of content
      in update_text content n = Inr new_content
       \<and> well_formed new_content
       \<and> rest_of new_content = rest_of content
       \<and> extract_text new_content = extract_text content
       \<and> frontmatter_of new_content = strip fm'
       \<and> (re_search match_rule_token_count fm = None \<longrightarrow>
            filter (\<lambda>l. l \<noteq> line) (split_lines fm') = split_lines fm
          \<and> line \<in> set (split_lines fm'))
       \<and> (\<forall>i k. re_search match_rule_token_count fm = Some (i, k) \<longrightarrow>
            fm' = take i fm @ line
                  @ re_sub_bol match_rule_token_count (\<lambda>_. line) False (drop (i + k) fm)))"
proof -
  assume wf: "well_formed content"
  let ?fm = "frontmatter_of content"
  let ?fm' = "update_frontmatter ?fm n"
  let ?L = "rule_token_count_line n"
  let ?new = "''---'' @ [NL] @ ?fm' @ [NL] @ ''---'' @ rest_of content"
  have nd: "\<not> sublist ''---'' ?fm'"
    by (intro no_dashes_update_frontmatter no_dashes_frontmatter wf)
  note RR = reread_rebuilt [OF nd, of "rest_of content"]
  have 1: "update_text content n = Inr ?new" by (rule update_text_well_formed [OF wf])
  have 2: "extract_text ?new = extract_text content"
    using RR(4) extract_text_well_formed [OF wf] by simp
  have 3: "filter (\<lambda>l. l \<noteq> ?L) (split_lines ?fm') = split_lines ?fm \<and> ?L \<in> set (split_lines ?fm')"
    if "re_search match_rule_token_count ?fm = None"
    using lines_update_frontmatter_no_count [OF that] line_in_updated_no_count [OF that] by blast
  have 4: "?fm' = take i ?fm @ ?L
                  @ re_sub_bol match_rule_token_count (\<lambda>_. ?L) False (drop (i + k) ?fm)"
    if "re_search match_rule_token_count ?fm = Some (i, k)" for i k
    by (rule update_frontmatter_replace(3) [OF that])
  from 1 2 3 4 RR(1,2,3) show ?thesis unfolding Let_def by blast
qed

lemma update_round_trip_example:
  "well_formed doc_with_count
   \<and> re_search match_rule_token_count (frontmatter_of doc_with_count) = Some (9, 19)
   \<and> update_text doc_with_count 12
       = Inr (''---'' @ [NL] @ update_frontmatter (frontmatter_of doc_with_count) 12
              @ [NL] @ ''---'' @ rest_of doc_with_count)
   \<and> extract_text (''---'' @ [NL] @ update_frontmatter (frontmatter_of doc_with_count) 12
              @ [NL] @ ''---'' @ rest_of doc_with_count) = extract_text doc_with_count
   \<and> update_frontmatter (frontmatter_of doc_with_count) 12
       = take 9 (frontmatter_of doc_with_count) @ rule_token_count_line 12
         @ re_sub_bol match_rule_token_count (\<lambda>_. rule_token_count_line 12) False
             (drop (9 + 19) (frontmatter_of doc_with_count))
   \<and> well_formed doc_with_always_apply
   \<and> re_search match_rule_token_count (frontmatter_of doc_with_always_apply) = None
   \<and> extract_text (''---'' @ [NL] @ update_frontmatter (frontmatter_of doc_with_always_apply) 12
              @ [NL] @ ''---'' @ rest_of doc_with_always_apply)
       = extract_text doc_with_always_apply
   \<and> filter (\<lambda>l. l \<noteq> rule_token_count_line 12)
        (split_lines (update_frontmatter (frontmatter_of doc_with_always_apply) 12))
       = split_lines (frontmatter_of doc_with_always_apply)
   \<and> rule_token_count_line 12
       \<in> set (split_lines (update_frontmatter (frontmatter_of doc_with_always_apply) 12))"
proof -
  have w1: "well_formed doc_with_count" by code_simp
  have s1: "re_search match_rule_token_count (frontmatter_of doc_with_count) = Some (9, 19)"
    by code_simp
  have w2: "well_formed doc_with_always_apply" by code_simp
  have r2: "re_search match_rule_token_count (frontmatter_of doc_with_always_apply) = None"
    by code_simp
  note T1 = update_round_trip [OF w1, of 12, unfolded Let_def]
  note T2 = update_round_trip [OF w2, of 12, unfolded Let_def]
  from T1 have a1: "update_text doc_with_count 12
       = Inr (''---'' @ [NL] @ update_frontmatter (frontmatter_of doc_with_count) 12
              @ [NL] @ ''---'' @ rest_of doc_with_count)"
    and a2: "extract_text (''---'' @ [NL] @ update_frontmatter (frontmatter_of doc_with_count) 12
              @ [NL] @ ''---'' @ rest_of doc_with_count) = extract_text doc_with_count"
    by blast+
  from T1 s1 have a3: "update_frontmatter (frontmatter_of doc_with_count) 12
       = take 9 (frontmatter_of doc_with_count) @ rule_token_count_line 12
         @ re_sub_bol match_rule_token_count (\<lambda>_. rule_token_count_line 12) False
             (drop (9 + 19) (frontmatter_of doc_with_count))"
    by blast
  from T2 have b1: "extract_text (''---'' @ [NL]
              @ update_frontmatter (frontmatter_of doc_with_always_apply) 12
              @ [NL] @ ''---'' @ rest_of doc_with_always_apply)
       = extract_text doc_with_always_apply"
    by blast
  from T2 r2 have b2: "filter (\<lambda>l. l \<noteq> rule_token_count_line 12)
        (split_lines (update_frontmatter (frontmatter_of doc_with_always_apply) 12))
       = split_lines (frontmatter_of doc_with_always_apply)"
    and b3: "rule_token_count_line 12
       \<in> set (split_lines (update_frontmatter (frontmatter_of doc_with_always_apply) 12))"
    by blast+
  from w1 s1 a1 a2 a3 w2 r2 b1 b2 b3 show ?thesis by blast
qed

section \<open>Facts about a second update\<close>

lemma re_sub_bol_match_gen:
  assumes "proper m" "m s = Some k"
  shows "re_sub_bol m r True s =
           r (take k s) @ re_sub_bol m r (last (take k s) = NL) (drop k s)"
proof -
  from assms have "0 < k" "k \<le> length s" unfolding proper_def by blast+
  then obtain c cs where "s = c # cs" by (cases s) auto
  with re_sub_bol_match [OF assms(1), of c cs k r] assms(2) show ?thesis by simp
qed

lemma hd_re_sub_bol_False:
  "t = [] \<or> \<not> P (hd t) \<Longrightarrow>
     re_sub_bol m r False t = [] \<or> \<not> P (hd (re_sub_bol m r False t))"
proof (cases t)
  case Nil
  then show ?thesis by simp
next
  case (Cons a list)
  assume "t = [] \<or> \<not> P (hd t)"
  with Cons have "\<not> P a" by simp
  moreover have "re_sub_bol m r False t = a # re_sub_bol m r (a = NL) list"
    unfolding Cons by (rule re_sub_bol_False_Cons)
  ultimately show ?thesis by simp
qed

lemma re_sub_rtc_line:
  assumes "X = [] \<or> \<not> is_digit (hd X)"
  shows "re_sub_bol match_rule_token_count (\<lambda>_. rule_token_count_line n) True
           (rule_token_count_line n @ X)
         = rule_token_count_line n
           @ re_sub_bol match_rule_token_count (\<lambda>_. rule_token_count_line n) False X"
proof -
  let ?L = "rule_token_count_line n"
  have m: "match_rule_token_count (?L @ X) = Some (length ?L)" by (rule rtc_line [OF assms])
  from rtc_last_not_NL [OF m] have l: "(last (take (length ?L) (?L @ X)) = NL) = False" by simp
  show ?thesis
    unfolding re_sub_bol_match_gen [OF rtc_proper m] l by simp
qed

lemma re_sub_rtc_idem:
  fixes n :: nat
  defines "sub \<equiv> re_sub_bol match_rule_token_count (\<lambda>_. rule_token_count_line n)"
  shows "sub b (sub b s) = sub b s"
proof (induction "length s" arbitrary: s b rule: less_induct)
  case less
  let ?L = "rule_token_count_line n"
  show ?case
  proof (cases s)
    case Nil
    then show ?thesis by (simp add: sub_def)
  next
    case (Cons c cs)
    show ?thesis
    proof (cases "b \<and> match_rule_token_count (c # cs) \<noteq> None")
      case True
      then obtain k where k: "match_rule_token_count (c # cs) = Some k" and b: b by auto
      let ?t = "drop k (c # cs)"
      from rtc_proper k have k0: "0 < k" unfolding proper_def by blast
      from rtc_last_not_NL [OF k] have l: "(last (take k (c # cs)) = NL) = False" by simp
      have e: "sub True (c # cs) = ?L @ sub False ?t"
        unfolding sub_def re_sub_bol_match_gen [OF rtc_proper k] l by simp
      from rtc_Some_decomp [OF k] have "?t = [] \<or> \<not> is_digit (hd ?t)" by blast
      then have "sub False ?t = [] \<or> \<not> is_digit (hd (sub False ?t))"
        unfolding sub_def by (rule hd_re_sub_bol_False)
      from re_sub_rtc_line [OF this, of n]
      have "sub True (?L @ sub False ?t) = ?L @ sub False (sub False ?t)"
        unfolding sub_def .
      moreover from k0 have "length ?t < length s" unfolding Cons by simp
      then have "sub False (sub False ?t) = sub False ?t" by (rule less)
      ultimately show ?thesis using e b Cons by simp
    next
      case False
      then have e: "sub b (c # cs) = c # sub (c = NL) cs"
        unfolding sub_def by (intro re_sub_bol_nomatch) auto
      from False have "b \<longrightarrow> match_rule_token_count (c # cs) = None" by simp
      then have "b \<longrightarrow> match_rule_token_count (c # sub (c = NL) cs) = None"
        using rtc_after_sub [OF letter_led_rtc, of c n cs] unfolding sub_def by blast
      then have "sub b (c # sub (c = NL) cs) = c # sub (c = NL) (sub (c = NL) cs)"
        unfolding sub_def by (rule re_sub_bol_nomatch)
      moreover have "sub (c = NL) (sub (c = NL) cs) = sub (c = NL) cs"
        by (rule less) (simp add: Cons)
      ultimately show ?thesis using e Cons by simp
    qed
  qed
qed

lemma re_search_bol_None_drop:
  assumes "re_search_bol m b i s = None"
  shows "re_search_bol m False j (drop k s) = None"
proof (cases "re_search_bol m False j (drop k s)")
  case None
  then show ?thesis .
next
  case (Some pq)
  obtain p q where pq: "pq = (p, q)" by (cases pq)
  with Some have s: "re_search_bol m False j (drop k s) = Some (p, q)" by simp
  define d where "d = p - j"
  from re_search_bol_Some [OF s] have d: "d \<le> length (drop k s)"
    "m (drop d (drop k s)) = Some q" "bol_at False (drop k s) d"
    unfolding d_def by blast+
  from d(3) have d0: "0 < d" and nl: "drop k s ! (d - 1) = NL"
    by (auto simp: bol_at_def split: if_splits)
  from d(1) d0 have len: "k + d \<le> length s" by (cases "k \<le> length s") simp_all
  with d0 nl have "s ! (k + (d - 1)) = NL" by simp
  with d0 have "bol_at b s (k + d)" by (simp add: bol_at_def)
  from re_search_bol_None [OF assms len this] d(2) show ?thesis by (simp add: add.commute)
qed

lemma re_sub_rtc_after_insert:
  fixes n :: nat
  defines "L \<equiv> rule_token_count_line n"
  defines "sub \<equiv> re_sub_bol match_rule_token_count (\<lambda>_. L)"
  defines "ins \<equiv> re_sub_bol match_always_apply (\<lambda>g. L @ [NL] @ g)"
  shows "re_search_bol match_rule_token_count b i s = None \<Longrightarrow> sub b (ins b s) = ins b s"
proof (induction "length s" arbitrary: s b i rule: less_induct)
  case less
  show ?case
  proof (cases s)
    case Nil
    then show ?thesis by (simp add: sub_def ins_def)
  next
    case (Cons c cs)
    show ?thesis
    proof (cases "b \<and> match_always_apply (c # cs) \<noteq> None")
      case True
      then obtain k where k: "match_always_apply (c # cs) = Some k" and b: b by auto
      note A = aa_Some [OF k]
      let ?t = "drop k (c # cs)"
      let ?Z = "ins False ?t"
      from aa_last_not_NL [OF k] have l: "(last (take k (c # cs)) = NL) = False" by simp
      have e: "ins True (c # cs) = L @ NL # ''alwaysApply:'' @ ?Z"
        unfolding ins_def re_sub_bol_match_gen [OF aa_proper k] l unfolding A(2) by simp
      have "\<not> is_digit NL" using NL_space space_not_digit by blast
      then have "NL # ''alwaysApply:'' @ ?Z = [] \<or> \<not> is_digit (hd (NL # ''alwaysApply:'' @ ?Z))"
        by simp
      from re_sub_rtc_line [OF this, of n]
      have 1: "sub True (L @ NL # ''alwaysApply:'' @ ?Z) = L @ sub False (NL # ''alwaysApply:'' @ ?Z)"
        unfolding sub_def L_def .
      have 2: "sub False (NL # ''alwaysApply:'' @ ?Z) = NL # sub True (''alwaysApply:'' @ ?Z)"
        unfolding sub_def by (simp only: re_sub_bol_False_Cons simp_thms)
      have "match_rule_token_count (CHR ''a'' # ''lwaysApply:'' @ ?Z) = None"
        by (simp add: match_rule_token_count_def)
      then have "sub True (CHR ''a'' # ''lwaysApply:'' @ ?Z)
                   = CHR ''a'' # sub (CHR ''a'' = NL) (''lwaysApply:'' @ ?Z)"
        unfolding sub_def by (intro re_sub_bol_nomatch) simp
      moreover have "(CHR ''a'' = NL) = False" by (simp add: NL_def)
      moreover have "sub False (''lwaysApply:'' @ ?Z) = ''lwaysApply:'' @ sub False ?Z"
        unfolding sub_def by (rule re_sub_bol_False_append) (simp add: NL_def)
      ultimately have 3: "sub True (''alwaysApply:'' @ ?Z) = ''alwaysApply:'' @ sub False ?Z"
        by simp
      from A(1) have "length ?t < length s" unfolding Cons by simp
      moreover have "re_search_bol match_rule_token_count False 0 ?t = None"
        using less.prems unfolding Cons by (rule re_search_bol_None_drop)
      ultimately have 4: "sub False ?Z = ?Z" by (rule less.hyps)
      from e 1 2 3 4 b Cons show ?thesis by simp
    next
      case False
      then have e: "ins b (c # cs) = c # ins (c = NL) cs"
        unfolding ins_def by (intro re_sub_bol_nomatch) auto
      from less.prems Cons have h: "b \<longrightarrow> match_rule_token_count (c # cs) = None"
        and r: "re_search_bol match_rule_token_count (c = NL) (Suc i) cs = None"
        by (auto split: option.splits if_splits)
      from h have "b \<longrightarrow> match_rule_token_count (c # ins (c = NL) cs) = None"
        using rtc_after_sub [OF letter_led_aa, of c n cs] unfolding ins_def L_def by blast
      then have "sub b (c # ins (c = NL) cs) = c # sub (c = NL) (ins (c = NL) cs)"
        unfolding sub_def by (rule re_sub_bol_nomatch)
      moreover have "sub (c = NL) (ins (c = NL) cs) = ins (c = NL) cs"
        by (rule less.hyps [OF _ r]) (simp add: Cons)
      ultimately show ?thesis using e Cons by simp
    qed
  qed
qed

lemma prefix_before_NL:
  "NL \<notin> set a \<Longrightarrow> prefix a (u @ NL # v) \<longleftrightarrow> prefix a u"
proof (induction a arbitrary: u)
  case Nil
  show ?case by simp
next
  case (Cons x a)
  then show ?case by (cases u) auto
qed

lemma value_follows_append_line:
  "value_follows (u @ NL # rule_token_count_line n) = value_follows u"
proof (induction u)
  case Nil
  show ?case
    by (simp add: value_follows_Cons value_follows_Nil NL_space rule_token_count_line_def letter_r)
next
  case (Cons x u)
  then show ?case by (simp add: value_follows_Cons)
qed

lemma rtc_append_line:
  "(match_rule_token_count (s @ NL # rule_token_count_line n) \<noteq> None)
     = (match_rule_token_count s \<noteq> None)"
proof -
  let ?P = "''ruleTokenCount:''"
  have na: "NL \<notin> set ?P" by (simp add: NL_def)
  have p: "prefix ?P (s @ NL # rule_token_count_line n) \<longleftrightarrow> prefix ?P s"
    by (rule prefix_before_NL [OF na])
  show ?thesis
  proof (cases "prefix ?P s")
    case False
    with p show ?thesis unfolding rtc_iff by blast
  next
    case True
    then have "15 \<le> length s" by (auto simp: prefix_def)
    then have "drop 15 (s @ NL # rule_token_count_line n) = drop 15 s @ NL # rule_token_count_line n"
      by simp
    with p show ?thesis unfolding rtc_iff by (simp add: value_follows_append_line)
  qed
qed

lemma re_sub_rtc_after_append:
  fixes n :: nat
  defines "L \<equiv> rule_token_count_line n"
  defines "sub \<equiv> re_sub_bol match_rule_token_count (\<lambda>_. L)"
  shows "re_search_bol match_rule_token_count b i s = None \<Longrightarrow> sub b (s @ NL # L) = s @ NL # L"
proof (induction s arbitrary: b i)
  case Nil
  have "match_rule_token_count (NL # L) = None"
    by (simp add: match_rule_token_count_def NL_def)
  then have "sub b (NL # L) = NL # sub True L"
    unfolding sub_def using re_sub_bol_nomatch [of b match_rule_token_count NL L] by simp
  moreover have "sub True (L @ []) = L @ sub False []"
    unfolding sub_def L_def by (rule re_sub_rtc_line) simp
  ultimately show ?case by (simp add: sub_def)
next
  case (Cons c cs)
  from Cons.prems have h: "b \<longrightarrow> match_rule_token_count (c # cs) = None"
    and r: "re_search_bol match_rule_token_count (c = NL) (Suc i) cs = None"
    by (auto split: option.splits if_splits)
  from h have "b \<longrightarrow> match_rule_token_count (c # (cs @ NL # L)) = None"
    using rtc_append_line [of "c # cs" n] unfolding L_def by auto
  then have "sub b (c # (cs @ NL # L)) = c # sub (c = NL) (cs @ NL # L)"
    unfolding sub_def by (rule re_sub_bol_nomatch)
  with Cons.IH [OF r] show ?case by simp
qed

lemma re_sub_bol_not_Nil:
  assumes "letter_led m r" "s \<noteq> []" "\<not> is_space (hd s)"
  shows "re_sub_bol m r b s \<noteq> [] \<and> \<not> is_space (hd (re_sub_bol m r b s))"
proof -
  from assms(2) obtain c cs where s: "s = c # cs" by (cases s) auto
  from assms(1) have pm: "proper m" by (simp add: letter_led_def)
  show ?thesis
  proof (cases "b \<and> m (c # cs) \<noteq> None")
    case True
    then obtain k where k: "m (c # cs) = Some k" and b: b by auto
    from assms(1) have "r (take k (c # cs)) \<noteq> []" "\<not> is_space (hd (r (take k (c # cs))))"
      unfolding letter_led_def by blast+
    with re_sub_bol_match [OF pm k, of r] b s show ?thesis by simp
  next
    case False
    then have "re_sub_bol m r b (c # cs) = c # re_sub_bol m r (c = NL) cs"
      by (intro re_sub_bol_nomatch) auto
    with assms(3) s show ?thesis by simp
  qed
qed

lemma re_sub_bol_last:
  assumes pm: "proper m"
    and r: "\<And>s k. m s = Some k \<Longrightarrow> r (take k s) \<noteq> [] \<and> \<not> is_space (last (r (take k s)))"
  shows "s \<noteq> [] \<Longrightarrow> \<not> is_space (last s) \<Longrightarrow>
           re_sub_bol m r b s \<noteq> [] \<and> \<not> is_space (last (re_sub_bol m r b s))"
proof (induction "length s" arbitrary: s b rule: less_induct)
  case less
  from less.prems(1) obtain c cs where s: "s = c # cs" by (cases s) auto
  show ?case
  proof (cases "b \<and> m (c # cs) \<noteq> None")
    case True
    then obtain k where k: "m (c # cs) = Some k" and b: b by auto
    from pm k have k0: "0 < k" unfolding proper_def by blast
    let ?t = "drop k (c # cs)"
    let ?X = "re_sub_bol m r (last (take k (c # cs)) = NL) ?t"
    have e: "re_sub_bol m r b s = r (take k (c # cs)) @ ?X"
      using re_sub_bol_match [OF pm k, of r] b s by simp
    show ?thesis
    proof (cases "?t = []")
      case True
      then have "?X = []" by simp
      with e r [OF k] show ?thesis by simp
    next
      case False
      then have "last ?t = last s" unfolding s by (simp add: last_drop)
      with less.prems have "\<not> is_space (last ?t)" by simp
      moreover from k0 have "length ?t < length s" unfolding s by simp
      ultimately have "?X \<noteq> [] \<and> \<not> is_space (last ?X)" using False less.hyps by blast
      with e show ?thesis by simp
    qed
  next
    case False
    then have e: "re_sub_bol m r b s = c # re_sub_bol m r (c = NL) cs"
      unfolding s by (intro re_sub_bol_nomatch) auto
    show ?thesis
    proof (cases "cs = []")
      case True
      with e less.prems s show ?thesis by simp
    next
      case False
      with less.prems s have "\<not> is_space (last cs)" by simp
      moreover have "length cs < length s" unfolding s by simp
      ultimately have "re_sub_bol m r (c = NL) cs \<noteq> []
          \<and> \<not> is_space (last (re_sub_bol m r (c = NL) cs))"
        using False less.hyps by blast
      with e show ?thesis by simp
    qed
  qed
qed

lemma line_last: "\<not> is_space (last (rule_token_count_line n))"
proof -
  from str_of_nat_digits [of n] have "is_digit (last (str_of_nat n))" "str_of_nat n \<noteq> []"
    by simp_all
  then have "is_digit (last (rule_token_count_line n))"
    by (simp add: rule_token_count_line_def)
  then show ?thesis using space_not_digit by blast
qed

lemma line_not_space_hd: "\<not> is_space (hd (rule_token_count_line n))"
  by (simp add: line_hd letter_r)

lemma rtc_found:
  fixes n :: nat
  defines "L \<equiv> rule_token_count_line n"
  assumes u: "u = [] \<or> last u = NL" and X: "X = [] \<or> \<not> is_digit (hd X)"
  shows "bol_at True (u @ L @ X) (length u)"
    and "match_rule_token_count (drop (length u) (u @ L @ X)) = Some (length L)"
    and "take (length L) (drop (length u) (u @ L @ X)) = L"
    and "re_search match_rule_token_count (u @ L @ X) \<noteq> None"
proof -
  show b: "bol_at True (u @ L @ X) (length u)"
  proof (cases "u = []")
    case True
    then show ?thesis by (simp add: bol_at_def)
  next
    case False
    with u have "last u = NL" by simp
    with False have "(u @ L @ X) ! (length u - 1) = NL"
      by (simp add: nth_append last_conv_nth)
    with False show ?thesis by (simp add: bol_at_def)
  qed
  show m: "match_rule_token_count (drop (length u) (u @ L @ X)) = Some (length L)"
    unfolding L_def using rtc_line [OF X, of n] by simp
  show "take (length L) (drop (length u) (u @ L @ X)) = L" by simp
  have "length u \<le> length (u @ L @ X)" by simp
  with b m have "re_search_bol match_rule_token_count True 0 (u @ L @ X) \<noteq> None"
    by (intro re_search_bol_found [of "length u"]) simp
  then show "re_search match_rule_token_count (u @ L @ X) \<noteq> None" by (simp add: re_search_def)
qed

lemma take_at_bol: "bol_at True s i \<Longrightarrow> i \<le> length s \<Longrightarrow> take i s = [] \<or> last (take i s) = NL"
proof (cases i)
  case 0
  then show ?thesis by simp
next
  case (Suc j)
  assume "bol_at True s i" "i \<le> length s"
  with Suc have "s ! j = NL" "j < length s" by (simp_all add: bol_at_def)
  then have "take i s = take j s @ [NL]" unfolding Suc by (simp add: take_Suc_conv_app_nth)
  then show ?thesis by simp
qed

lemma re_search_Nil: "proper m \<Longrightarrow> re_search m [] = None"
proof -
  assume "proper m"
  then have "m [] = None" unfolding proper_def by (cases "m []") force+
  then show ?thesis by (simp add: re_search_def)
qed

text \<open>
  The updated frontmatter, in each of the three cases, is a text \<open>u @ line @ X\<close> in which
  \<open>line\<close> starts a line and is not followed by a digit.
\<close>

lemma updated_frontmatter_shape:
  fixes n :: nat
  defines "L \<equiv> rule_token_count_line n"
  shows "\<exists>u X. update_frontmatter fm n = u @ L @ X
           \<and> (u = [] \<or> last u = NL) \<and> (X = [] \<or> \<not> is_digit (hd X))"
proof (cases "re_search match_rule_token_count fm")
  case (Some ik)
  obtain i k where "ik = (i, k)" by (cases ik)
  with Some have s: "re_search match_rule_token_count fm = Some (i, k)" by simp
  let ?X = "re_sub_bol match_rule_token_count (\<lambda>_. L) False (drop (i + k) fm)"
  from s have sb: "re_search_bol match_rule_token_count True 0 fm = Some (i, k)"
    by (simp add: re_search_def)
  from re_search_bol_Some [OF sb] have m: "match_rule_token_count (drop i fm) = Some k"
    and le: "i \<le> length fm" by simp_all
  have dd: "drop k (drop i fm) = drop (i + k) fm" by (simp add: add.commute)
  from rtc_Some_decomp [OF m]
  have "drop k (drop i fm) = [] \<or> \<not> is_digit (hd (drop k (drop i fm)))" by blast
  then have "drop (i + k) fm = [] \<or> \<not> is_digit (hd (drop (i + k) fm))" unfolding dd .
  then have X: "?X = [] \<or> \<not> is_digit (hd ?X)" by (rule hd_re_sub_bol_False)
  from update_frontmatter_replace(1) [OF s] le
  have u: "take i fm = [] \<or> last (take i fm) = NL" by (rule take_at_bol)
  have e: "update_frontmatter fm n = take i fm @ L @ ?X"
    unfolding L_def by (rule update_frontmatter_replace(3) [OF s])
  from e u X show ?thesis by blast
next
  case None
  show ?thesis
  proof (cases "re_search match_always_apply fm")
    case (Some ik)
    obtain i k where "ik = (i, k)" by (cases ik)
    with Some have s: "re_search match_always_apply fm = Some (i, k)" by simp
    let ?X = "NL # ''alwaysApply:''
              @ re_sub_bol match_always_apply (\<lambda>g. L @ [NL] @ g) False (drop (i + k) fm)"
    from s have sb: "re_search_bol match_always_apply True 0 fm = Some (i, k)"
      by (simp add: re_search_def)
    from re_search_bol_Some [OF sb] have le: "i \<le> length fm" by simp
    from update_frontmatter_insert(1) [OF None s] le
    have u: "take i fm = [] \<or> last (take i fm) = NL" by (rule take_at_bol)
    have "\<not> is_digit NL" using NL_space space_not_digit by blast
    then have X: "?X = [] \<or> \<not> is_digit (hd ?X)" by simp
    have e: "update_frontmatter fm n = take i fm @ L @ ?X"
      unfolding L_def using update_frontmatter_insert(3) [OF None s, of n] by simp
    from e u X show ?thesis by blast
  next
    case n2: None
    with None have "update_frontmatter fm n = (fm @ [NL]) @ L @ []"
      by (simp add: update_frontmatter_def L_def)
    moreover have "fm @ [NL] = [] \<or> last (fm @ [NL]) = NL" by simp
    ultimately show ?thesis by blast
  qed
qed

lemma updated_frontmatter_fixed:
  "re_sub match_rule_token_count (\<lambda>_. rule_token_count_line n) (update_frontmatter fm n)
     = update_frontmatter fm n"
proof (cases "re_search match_rule_token_count fm")
  case (Some ik)
  then have "update_frontmatter fm n
      = re_sub_bol match_rule_token_count (\<lambda>_. rule_token_count_line n) True fm"
    by (simp add: update_frontmatter_def re_sub_def)
  then show ?thesis unfolding re_sub_def by (simp only: re_sub_rtc_idem)
next
  case None
  then have nb: "re_search_bol match_rule_token_count True 0 fm = None"
    by (simp add: re_search_def)
  show ?thesis
  proof (cases "re_search match_always_apply fm")
    case (Some ik)
    with None have "update_frontmatter fm n
      = re_sub_bol match_always_apply (\<lambda>g. rule_token_count_line n @ [NL] @ g) True fm"
      by (simp add: update_frontmatter_def re_sub_def)
    then show ?thesis unfolding re_sub_def by (simp only: re_sub_rtc_after_insert [OF nb])
  next
    case n2: None
    with None have "update_frontmatter fm n = fm @ NL # rule_token_count_line n"
      by (simp add: update_frontmatter_def)
    then show ?thesis unfolding re_sub_def by (simp only: re_sub_rtc_after_append [OF nb])
  qed
qed

lemma updated_frontmatter_trimmed:
  assumes "fm \<noteq> []" "\<not> is_space (hd fm)" "\<not> is_space (last fm)"
  shows "strip (update_frontmatter fm n) = update_frontmatter fm n"
proof (rule strip_fixed, rule disjI2)
  let ?L = "rule_token_count_line n"
  show "\<not> is_space (hd (update_frontmatter fm n)) \<and> \<not> is_space (last (update_frontmatter fm n))"
  proof (cases "re_search match_rule_token_count fm")
    case (Some ik)
    then have e: "update_frontmatter fm n
      = re_sub_bol match_rule_token_count (\<lambda>_. ?L) True fm"
      by (simp add: update_frontmatter_def re_sub_def)
    have "re_sub_bol match_rule_token_count (\<lambda>_. ?L) True fm \<noteq> []
        \<and> \<not> is_space (last (re_sub_bol match_rule_token_count (\<lambda>_. ?L) True fm))"
      by (rule re_sub_bol_last [OF rtc_proper _ assms(1,3)]) (simp add: line_last line_hd)
    with re_sub_bol_not_Nil [OF letter_led_rtc assms(1,2), of n True] e show ?thesis by simp
  next
    case None
    show ?thesis
    proof (cases "re_search match_always_apply fm")
      case (Some ik)
      with None have e: "update_frontmatter fm n
        = re_sub_bol match_always_apply (\<lambda>g. ?L @ [NL] @ g) True fm"
        by (simp add: update_frontmatter_def re_sub_def)
      have "re_sub_bol match_always_apply (\<lambda>g. ?L @ [NL] @ g) True fm \<noteq> []
        \<and> \<not> is_space (last (re_sub_bol match_always_apply (\<lambda>g. ?L @ [NL] @ g) True fm))"
      proof (rule re_sub_bol_last [OF aa_proper _ assms(1,3)])
        fix s k assume "match_always_apply s = Some k"
        from aa_Some(2) [OF this]
        show "?L @ [NL] @ take k s \<noteq> [] \<and> \<not> is_space (last (?L @ [NL] @ take k s))"
          by (simp add: is_space_def)
      qed
      with re_sub_bol_not_Nil [OF letter_led_aa assms(1,2), of n True] e show ?thesis by simp
    next
      case n2: None
      with None have "update_frontmatter fm n = fm @ NL # ?L"
        by (simp add: update_frontmatter_def)
      with assms line_last [of n] line_hd(2) [of n] show ?thesis by simp
    qed
  qed
qed

lemma second_update:
  fixes n :: nat
  defines "L \<equiv> rule_token_count_line n"
  assumes t: "fm = [] \<or> (\<not> is_space (hd fm) \<and> \<not> is_space (last fm))"
  defines "G \<equiv> strip (update_frontmatter fm n)"
  shows "update_frontmatter G n = G"
    and "\<exists>i. i \<le> length G \<and> bol_at True G i
           \<and> match_rule_token_count (drop i G) = Some (length L)
           \<and> take (length L) (drop i G) = L"
    and "re_search match_rule_token_count G \<noteq> None"
proof -
  have shape: "\<exists>u X. G = u @ L @ X \<and> (u = [] \<or> last u = NL) \<and> (X = [] \<or> \<not> is_digit (hd X))"
    and fixed: "re_sub match_rule_token_count (\<lambda>_. L) G = G"
  proof -
    show "\<exists>u X. G = u @ L @ X \<and> (u = [] \<or> last u = NL) \<and> (X = [] \<or> \<not> is_digit (hd X))"
    proof (cases "fm = []")
      case True
      then have "update_frontmatter fm n = NL # L"
        by (simp add: update_frontmatter_def re_search_Nil rtc_proper aa_proper L_def)
      then have "G = strip L" unfolding G_def strip_def by (simp add: lstrip_NL)
      also have "strip L = L"
        unfolding L_def by (rule strip_fixed) (simp add: line_last line_not_space_hd)
      finally have "G = [] @ L @ []" by simp
      then show ?thesis by blast
    next
      case False
      with t have "G = update_frontmatter fm n"
        unfolding G_def by (intro updated_frontmatter_trimmed) auto
      with updated_frontmatter_shape [of fm n] show ?thesis unfolding L_def by simp
    qed
    show "re_sub match_rule_token_count (\<lambda>_. L) G = G"
    proof (cases "fm = []")
      case True
      then have "update_frontmatter fm n = NL # L"
        by (simp add: update_frontmatter_def re_search_Nil rtc_proper aa_proper L_def)
      then have "G = strip L" unfolding G_def strip_def by (simp add: lstrip_NL)
      also have "strip L = L"
        unfolding L_def by (rule strip_fixed) (simp add: line_last line_not_space_hd)
      finally have g: "G = L" .
      have "re_sub_bol match_rule_token_count (\<lambda>_. L) True (L @ [])
              = L @ re_sub_bol match_rule_token_count (\<lambda>_. L) False []"
        unfolding L_def by (rule re_sub_rtc_line) simp
      with g show ?thesis by (simp add: re_sub_def)
    next
      case False
      with t have "G = update_frontmatter fm n"
        unfolding G_def by (intro updated_frontmatter_trimmed) auto
      with updated_frontmatter_fixed [of n fm] show ?thesis unfolding L_def by simp
    qed
  qed
  from shape obtain u X where g: "G = u @ L @ X" and u: "u = [] \<or> last u = NL"
    and X: "X = [] \<or> \<not> is_digit (hd X)" by blast
  note F = rtc_found [OF u X, of n, folded L_def, folded g]
  show s: "re_search match_rule_token_count G \<noteq> None" by (rule F(4))
  with fixed show "update_frontmatter G n = G" by (simp add: update_frontmatter_def L_def)
  have "length u \<le> length G" unfolding g by simp
  with F(1,2,3) show "\<exists>i. i \<le> length G \<and> bol_at True G i
           \<and> match_rule_token_count (drop i G) = Some (length L)
           \<and> take (length L) (drop i G) = L" by blast
qed

lemma frontmatter_trimmed:
  "frontmatter_of content = []
   \<or> (\<not> is_space (hd (frontmatter_of content)) \<and> \<not> is_space (last (frontmatter_of content)))"
  unfolding frontmatter_of_def by (rule strip_ends)

lemma update_text_twice:
  fixes content :: string and n :: nat
  assumes wf: "well_formed content"
  defines "c1 \<equiv> ''---'' @ [NL] @ update_frontmatter (frontmatter_of content) n
                  @ [NL] @ ''---'' @ rest_of content"
  defines "c2 \<equiv> ''---'' @ [NL] @ frontmatter_of c1 @ [NL] @ ''---'' @ rest_of c1"
  shows "update_text content n = Inr c1"
    and "update_text c1 n = Inr c2"
    and "well_formed c1" and "well_formed c2"
    and "extract_text c1 = extract_text content"
    and "frontmatter_of c2 = frontmatter_of c1" and "rest_of c2 = rest_of c1"
    and "re_search match_rule_token_count (frontmatter_of c1) \<noteq> None"
    and "\<exists>i. i \<le> length (frontmatter_of c1) \<and> bol_at True (frontmatter_of c1) i
           \<and> match_rule_token_count (drop i (frontmatter_of c1))
               = Some (length (rule_token_count_line n))
           \<and> take (length (rule_token_count_line n)) (drop i (frontmatter_of c1))
               = rule_token_count_line n"
proof -
  let ?fm = "frontmatter_of content"
  let ?fm' = "update_frontmatter ?fm n"
  let ?G = "strip ?fm'"
  have nd: "\<not> sublist ''---'' ?fm'"
    by (intro no_dashes_update_frontmatter no_dashes_frontmatter wf)
  note R1 = reread_rebuilt [OF nd, of "rest_of content", folded c1_def]
  show 1: "update_text content n = Inr c1"
    unfolding c1_def by (rule update_text_well_formed [OF wf])
  show w1: "well_formed c1" by (rule R1(1))
  show "extract_text c1 = extract_text content"
    using R1(4) extract_text_well_formed [OF wf] by simp
  note S = second_update [OF frontmatter_trimmed, of content n]
  have g: "frontmatter_of c1 = ?G" by (rule R1(3))
  from S(1) have u: "update_frontmatter (frontmatter_of c1) n = frontmatter_of c1"
    unfolding g .
  show "update_text c1 n = Inr c2"
    unfolding c2_def using update_text_well_formed [OF w1, of n] u by simp
  from nd have "\<not> sublist ''---'' ?G" by (rule no_dashes_strip)
  then have nd2: "\<not> sublist ''---'' (frontmatter_of c1)" unfolding g .
  note R2 = reread_rebuilt [OF nd2, of "rest_of c1", folded c2_def]
  show "well_formed c2" by (rule R2(1))
  show "rest_of c2 = rest_of c1" by (rule R2(2))
  show "frontmatter_of c2 = frontmatter_of c1"
    unfolding R2(3) unfolding g by (rule strip_idem)
  show "re_search match_rule_token_count (frontmatter_of c1) \<noteq> None"
    unfolding g by (rule S(3))
  show "\<exists>i. i \<le> length (frontmatter_of c1) \<and> bol_at True (frontmatter_of c1) i
           \<and> match_rule_token_count (drop i (frontmatter_of c1))
               = Some (length (rule_token_count_line n))
           \<and> take (length (rule_token_count_line n)) (drop i (frontmatter_of c1))
               = rule_token_count_line n"
    unfolding g by (rule S(2))
qed

lemma process_rule_file_update:
  assumes "files w p = Some content" and "update_text content (tok (extract_text content)) = Inr c1"
  shows "process_rule_file tok p True w
           = (Inr (tok (extract_text content)),
              print UpdatedOk
                (write_text p c1 (print (FileLine (snd p) (tok (extract_text content))) w)))"
  using assms
  by (simp add: process_rule_file_def extract_content_from_mdc_def read_text_def
      update_rule_token_count_def print_def write_text_def Let_def)

lemma files_after_update:
  "files (print e (write_text p c (print e' w))) = (files w)(p \<mapsto> c)"
  by (simp add: print_def write_text_def)

text \<open>
  Claim C6.  For every file with well-formed frontmatter, two update passes in
  succession compute the same token count; the second pass finds the frontmatter
  written by the first and takes the replacing branch (a matching \<^verbatim>\<open>ruleTokenCount\<close>
  field is there, with exactly the computed count as its value), and the frontmatter and
  the text after it are the same after the second pass as after the first: no further
  occurrence of the field is produced.
\<close>

theorem second_update_replaces:
  assumes "files w p = Some content" and "well_formed content"
  shows "\<exists>w1 w2 c1 c2.
           process_rule_file tok p True w = (Inr (tok (extract_text content)), w1)
         \<and> files w1 p = Some c1
         \<and> process_rule_file tok p True w1 = (Inr (tok (extract_text content)), w2)
         \<and> files w2 p = Some c2
         \<and> well_formed c1 \<and> well_formed c2
         \<and> frontmatter_of c2 = frontmatter_of c1
         \<and> rest_of c2 = rest_of c1
         \<and> re_search match_rule_token_count (frontmatter_of c1) \<noteq> None
         \<and> (\<exists>i. i \<le> length (frontmatter_of c1) \<and> bol_at True (frontmatter_of c1) i
               \<and> match_rule_token_count (drop i (frontmatter_of c1))
                   = Some (length (rule_token_count_line (tok (extract_text content))))
               \<and> take (length (rule_token_count_line (tok (extract_text content))))
                    (drop i (frontmatter_of c1))
                   = rule_token_count_line (tok (extract_text content)))"
proof -
  let ?n = "tok (extract_text content)"
  define c1 where "c1 = ''---'' @ [NL] @ update_frontmatter (frontmatter_of content) ?n
                  @ [NL] @ ''---'' @ rest_of content"
  define c2 where "c2 = ''---'' @ [NL] @ frontmatter_of c1 @ [NL] @ ''---'' @ rest_of c1"
  note T = update_text_twice [OF assms(2), of ?n, folded c1_def, folded c2_def]
  define w1 where "w1 = print UpdatedOk (write_text p c1 (print (FileLine (snd p) ?n) w))"
  define w2 where "w2 = print UpdatedOk (write_text p c2 (print (FileLine (snd p) ?n) w1))"
  have p1: "process_rule_file tok p True w = (Inr ?n, w1)"
    unfolding w1_def by (rule process_rule_file_update [where tok = tok, OF assms(1) T(1)])
  have f1: "files w1 p = Some c1" unfolding w1_def by (simp add: files_after_update)
  from T(2) T(5) have "update_text c1 (tok (extract_text c1)) = Inr c2" by simp
  from process_rule_file_update [where tok = tok, OF f1 this]
  have p2: "process_rule_file tok p True w1 = (Inr ?n, w2)"
    unfolding w2_def T(5) .
  have f2: "files w2 p = Some c2" unfolding w2_def by (simp add: files_after_update)
  from p1 f1 p2 f2 T(3,4,6,7,8,9) show ?thesis by blast
qed

theorem second_update_replaces_witness:
  "files example_world (''rules'', ''a.mdc'')
     = Some ''---\<newline>alwaysApply: true\<newline>---\<newline>hello world''
   \<and> well_formed ''---\<newline>alwaysApply: true\<newline>---\<newline>hello world''
   \<and> (\<exists>w1 w2 c1 c2.
         process_rule_file length (''rules'', ''a.mdc'') True example_world
           = (Inr (length (extract_text ''---\<newline>alwaysApply: true\<newline>---\<newline>hello world'')), w1)
       \<and> files w1 (''rules'', ''a.mdc'') = Some c1
       \<and> process_rule_file length (''rules'', ''a.mdc'') True w1
           = (Inr (length (extract_text ''---\<newline>alwaysApply: true\<newline>---\<newline>hello world'')), w2)
       \<and> files w2 (''rules'', ''a.mdc'') = Some c2
       \<and> well_formed c1 \<and> well_formed c2
       \<and> frontmatter_of c2 = frontmatter_of c1
       \<and> rest_of c2 = rest_of c1
       \<and> re_search match_rule_token_count (frontmatter_of c1) \<noteq> None
       \<and> (\<exists>i. i \<le> length (frontmatter_of c1) \<and> bol_at True (frontmatter_of c1) i
             \<and> match_rule_token_count (drop i (frontmatter_of c1))
                 = Some (length (rule_token_count_line
                     (length (extract_text ''---\<newline>alwaysApply: true\<newline>---\<newline>hello world''))))
             \<and> take (length (rule_token_count_line
                     (length (extract_text ''---\<newline>alwaysApply: true\<newline>---\<newline>hello world''))))
                  (drop i (frontmatter_of c1))
                 = rule_token_count_line
                     (length (extract_text ''---\<newline>alwaysApply: true\<newline>---\<newline>hello world''))))"
proof -
  have f: "files example_world (''rules'', ''a.mdc'')
     = Some ''---\<newline>alwaysApply: true\<newline>---\<newline>hello world''" by code_simp
  have wf: "well_formed ''---\<newline>alwaysApply: true\<newline>---\<newline>hello world''" by code_simp
  from f wf second_update_replaces [where tok = length, OF f wf] show ?thesis
    by (intro conjI)
qed

section \<open>The always-applied subtotal\<close>

lemma process_rule_file_result:
  assumes "files w p = Some c"
  shows "\<exists>w1. process_rule_file tok p u w = (Inr (tok (extract_text c)), w1)
             \<and> files w1 = (files w)(p \<mapsto> read_back tok u c)"
proof (cases u)
  case False
  with assms have "process_rule_file tok p u w
      = (Inr (tok (extract_text c)), print (FileLine (snd p) (tok (extract_text c))) w)"
    by (simp add: process_rule_file_def extract_content_from_mdc_def read_text_def Let_def)
  moreover from assms False
  have "files (print (FileLine (snd p) (tok (extract_text c))) w)
          = (files w)(p \<mapsto> read_back tok u c)"
    by (simp add: print_def read_back_def map_upd_triv)
  ultimately show ?thesis by blast
next
  case True
  show ?thesis
  proof (cases "update_text c (tok (extract_text c))")
    case (Inr c1)
    from process_rule_file_update [where tok = tok, OF assms Inr] True
    have "process_rule_file tok p u w
        = (Inr (tok (extract_text c)),
           print UpdatedOk (write_text p c1 (print (FileLine (snd p) (tok (extract_text c))) w)))"
      by simp
    moreover from True Inr
    have "files (print UpdatedOk
             (write_text p c1 (print (FileLine (snd p) (tok (extract_text c))) w)))
          = (files w)(p \<mapsto> read_back tok u c)"
      by (simp add: files_after_update read_back_def)
    ultimately show ?thesis by blast
  next
    case (Inl wn)
    let ?w1 = "print (FileLine (snd p) (tok (extract_text c))) w"
    let ?e = "case wn of NoFrontmatter \<Rightarrow> WarnNoFrontmatter p
              | MalformedFrontmatter \<Rightarrow> WarnMalformed p"
    from assms Inl True have "process_rule_file tok p u w
        = (Inr (tok (extract_text c)), print CouldNotUpdate (print ?e ?w1))"
      by (cases wn)
        (simp_all add: process_rule_file_def extract_content_from_mdc_def read_text_def
          update_rule_token_count_def print_def Let_def)
    moreover from assms True Inl
    have "files (print CouldNotUpdate (print ?e ?w1)) = (files w)(p \<mapsto> read_back tok u c)"
      by (simp add: print_def read_back_def map_upd_triv)
    ultimately show ?thesis by blast
  qed
qed

lemma process_all_totals:
  assumes "distinct ps" and "\<forall>p \<in> set ps. files w p \<noteq> None"
  shows "fst (process_all tok u ps (t, a) w)
           = Inr (t + sum_list (map (\<lambda>p. tok (extract_text (the (files w p)))) ps),
                  a + sum_list (map (\<lambda>p. tok (extract_text (the (files w p))))
                        (filter (\<lambda>p. always_applied (read_back tok u (the (files w p)))) ps)))"
  using assms
proof (induction ps arbitrary: t a w)
  case Nil
  show ?case by simp
next
  case (Cons p ps)
  from Cons.prems obtain c where c: "files w p = Some c" by auto
  let ?n = "tok (extract_text c)"
  from process_rule_file_result [OF c, of tok u] obtain w1 where
    pr: "process_rule_file tok p u w = (Inr ?n, w1)"
    and f1: "files w1 = (files w)(p \<mapsto> read_back tok u c)" by blast
  from f1 have rd: "read_text p w1 = Inr (read_back tok u c)" by (simp add: read_text_def)
  from Cons.prems have np: "p \<notin> set ps" and d: "distinct ps" by simp_all
  have same: "files w1 q = files w q" if "q \<in> set ps" for q
    using that np f1 by auto
  with Cons.prems have ex: "\<forall>q \<in> set ps. files w1 q \<noteq> None" by simp
  let ?a' = "if re_search match_always_apply_true (read_back tok u c) \<noteq> None
             then a + ?n else a"
  have step: "process_all tok u (p # ps) (t, a) w = process_all tok u ps (t + ?n, ?a') w1"
    using pr rd by simp
  have m1: "map (\<lambda>q. tok (extract_text (the (files w1 q)))) ps
              = map (\<lambda>q. tok (extract_text (the (files w q)))) ps"
    using same by simp
  have m2: "filter (\<lambda>q. always_applied (read_back tok u (the (files w1 q)))) ps
              = filter (\<lambda>q. always_applied (read_back tok u (the (files w q)))) ps"
    using same by (intro filter_cong) simp_all
  have m3: "map (\<lambda>q. tok (extract_text (the (files w1 q))))
                (filter (\<lambda>q. always_applied (read_back tok u (the (files w q)))) ps)
              = map (\<lambda>q. tok (extract_text (the (files w q))))
                (filter (\<lambda>q. always_applied (read_back tok u (the (files w q)))) ps)"
    using same by simp
  from Cons.IH [OF d ex, where t = "t + ?n" and a = ?a']
  have "fst (process_all tok u ps (t + ?n, ?a') w1)
          = Inr (t + ?n + sum_list (map (\<lambda>q. tok (extract_text (the (files w q)))) ps),
                 ?a' + sum_list (map (\<lambda>q. tok (extract_text (the (files w q))))
                        (filter (\<lambda>q. always_applied (read_back tok u (the (files w q)))) ps)))"
    unfolding m1 m2 m3 .
  with c show ?case unfolding step by (simp add: always_applied_def)
qed

text \<open>
  Claim C3.  Only a match inside the frontmatter block is to put a file into the
  always-applied subtotal.  Line 163, under the comment \<^verbatim>\<open>Check if always applied\<close>,
  searches the whole text of the file, where the updater looks for \<^verbatim>\<open>alwaysApply:\<close> in
  the frontmatter only.  The only file of the run below has well-formed frontmatter
  without the field and has the line \<^verbatim>\<open>alwaysApply: true\<close> in its body: its 18 tokens are
  printed as the always-applied subtotal.
\<close>

theorem body_match_counts:
  "well_formed doc_with_body_match
   \<and> re_search match_always_apply_true (frontmatter_of doc_with_body_match) = None
   \<and> extract_text doc_with_body_match = ''alwaysApply: true\<newline>''
   \<and> stdout (snd (program (Some length) (example_args False) body_match_world))
       = [Header, Separator, FileLine ''b.mdc'' 18, Separator, TotalLine 18, AlwaysLine 18 18]"
  by code_simp

text \<open>
  The totals of a run, by the test the code makes.  For every run that gets past startup
  over distinct rule files that all exist, the grand total is the sum of the token counts of the bodies, and the
  always-applied subtotal is the sum of the token counts of exactly those files whose
  whole text, as read back after the file was processed (the rewritten text when update
  mode wrote it), has a line start followed by \<^verbatim>\<open>alwaysApply:\<close>, optional whitespace and
  \<^verbatim>\<open>true\<close>, in the frontmatter or in the body.  When the grand total is positive the
  run prints that subtotal with the total and exits with status 0.
\<close>

lemma always_applied_subtotal:
  assumes "\<not> startup_failure (Some tok) a w"
    and "distinct (rule_files_of a w)"
    and "\<forall>p \<in> set (rule_files_of a w). files w p \<noteq> None"
  shows "(let ps = rule_files_of a w;
              count = (\<lambda>p. tok (extract_text (the (files w p))));
              total_tokens = sum_list (map count ps);
              always_applied_tokens =
                sum_list (map count
                  (filter (\<lambda>p. always_applied (read_back tok (arg_update a) (the (files w p)))) ps))
          in fst (process_all tok (arg_update a) ps (0, 0) (print Separator (print Header w)))
               = Inr (total_tokens, always_applied_tokens)
           \<and> (0 < total_tokens \<longrightarrow>
                fst (program (Some tok) a w) = Exit 0
              \<and> AlwaysLine always_applied_tokens total_tokens
                  \<in> set (stdout (snd (program (Some tok) a w)))))"
proof -
  let ?ps = "rule_files_of a w"
  let ?w0 = "print Separator (print Header w)"
  let ?count = "\<lambda>p. tok (extract_text (the (files w p)))"
  let ?t = "sum_list (map ?count ?ps)"
  let ?al = "sum_list (map ?count
                  (filter (\<lambda>p. always_applied (read_back tok (arg_update a) (the (files w p)))) ?ps))"
  have f0: "files ?w0 = files w" by (simp add: print_def)
  from assms(3) have ex: "\<forall>p \<in> set ?ps. files ?w0 p \<noteq> None" unfolding f0 .
  from process_all_totals [OF assms(2) ex, of tok "arg_update a" 0 0]
  have 1: "fst (process_all tok (arg_update a) ?ps (0, 0) ?w0) = Inr (?t, ?al)"
    unfolding f0 by simp
  then have pa: "process_all tok (arg_update a) ?ps (0, 0) ?w0
      = (Inr (?t, ?al), snd (process_all tok (arg_update a) ?ps (0, 0) ?w0))"
    by (simp add: prod_eq_iff)
  have 2: "fst (program (Some tok) a w) = Exit 0
         \<and> AlwaysLine ?al ?t \<in> set (stdout (snd (program (Some tok) a w)))"
    if "0 < ?t"
    using program_no_startup(3) [OF assms(1) pa refl that] by (simp add: print_def)
  from 1 2 show ?thesis unfolding Let_def by blast
qed

lemma always_applied_subtotal_example:
  "\<not> startup_failure (Some length) (example_args True) example_world
   \<and> distinct (rule_files_of (example_args True) example_world)
   \<and> list_all (\<lambda>p. files example_world p \<noteq> None) (rule_files_of (example_args True) example_world)
   \<and> sum_list (map (\<lambda>p. length (extract_text (the (files example_world p))))
        (rule_files_of (example_args True) example_world)) = 40
   \<and> sum_list (map (\<lambda>p. length (extract_text (the (files example_world p))))
        (filter (\<lambda>p. always_applied
                   (read_back length (arg_update (example_args True)) (the (files example_world p))))
           (rule_files_of (example_args True) example_world))) = 11
   \<and> fst (program (Some length) (example_args True) example_world) = Exit 0
   \<and> AlwaysLine 11 40 \<in> set (stdout (snd (program (Some length) (example_args True) example_world)))"
proof -
  let ?a = "example_args True"
  have h1: "\<not> startup_failure (Some length) ?a example_world"
    by (rule no_startup_failure_example)
  have h2: "distinct (rule_files_of ?a example_world)" by code_simp
  have h3: "list_all (\<lambda>p. files example_world p \<noteq> None) (rule_files_of ?a example_world)"
    by code_simp
  then have h3': "\<forall>p \<in> set (rule_files_of ?a example_world). files example_world p \<noteq> None"
    by (simp only: list_all_iff)
  have t: "sum_list (map (\<lambda>p. length (extract_text (the (files example_world p))))
        (rule_files_of ?a example_world)) = 40" by code_simp
  have al: "sum_list (map (\<lambda>p. length (extract_text (the (files example_world p))))
        (filter (\<lambda>p. always_applied
                   (read_back length (arg_update ?a) (the (files example_world p))))
           (rule_files_of ?a example_world))) = 11" by code_simp
  from always_applied_subtotal [OF h1 h2 h3', unfolded Let_def] t al
  have c: "fst (program (Some length) ?a example_world) = Exit 0
     \<and> AlwaysLine 11 40 \<in> set (stdout (snd (program (Some length) ?a example_world)))"
    by simp
  from h1 h2 h3 t al c show ?thesis by blast
qed

end
